theory Spec2Isabelle
  imports Complex_Main
begin

section \<open>Iterative solvers for the 1-D Poisson finite-difference system\<close>

text \<open>
  The notebook \<^verbatim>\<open>python-lectures/10_linear_systems_iterative.ipynb\<close> assembles a
  tridiagonal finite-difference matrix and defines three solvers, \<^verbatim>\<open>jacobi\<close>,
  \<^verbatim>\<open>gauss_seidel\<close> and \<^verbatim>\<open>gradient\<close>. The conjugate gradient method is described
  in a markdown cell only; the notebook holds no code for it.

  Conventions of the embedding:
  \<^item> a one-dimensional numpy array of floats is a \<open>real list\<close>, a two-dimensional one the
    list of its rows; a float is the real number it stands for (\<^verbatim>\<open>inf\<close> and
    \<^verbatim>\<open>nan\<close> have no counterpart: a run in which a float operation overflows or is
    undefined is outside the model), and float arithmetic is idealised as exact
    arithmetic on \<open>real\<close>, with one exception: the sum \<^verbatim>\<open>eps+1\<close> that starts every
    loop is modelled with the absorption of float64 (\<open>initial_tol\<close> below), because
    whether the loop is entered at all depends on it;
  \<^item> Python integers (\<^verbatim>\<open>n\<close>, \<^verbatim>\<open>nmax\<close>, \<^verbatim>\<open>it\<close>) are \<open>int\<close>;
  \<^item> the local variables of a solver are a record that the loop passes along;
  \<^item> an exception is the \<open>Inl\<close> branch of a sum type;
  \<^item> theorems about the solvers assume operands of matching shape where numpy would
    otherwise refuse them.
\<close>

subsection \<open>Arrays\<close>

type_synonym vec = "real list"
type_synonym mat = "real list list"

datatype py_error = UnboundLocalError string | ZeroDivisionError | ValueError

text \<open>\<^verbatim>\<open>zeros_like(b)\<close>, \<^verbatim>\<open>ones_like(b)\<close>, \<^verbatim>\<open>ones((m,))\<close>.\<close>

definition zeros_like :: "vec \<Rightarrow> vec" where
  "zeros_like b = replicate (length b) 0"

definition ones_like :: "vec \<Rightarrow> vec" where
  "ones_like b = replicate (length b) 1"

definition ones :: "nat \<Rightarrow> vec" where
  "ones m = replicate m 1"

text \<open>The slice \<^verbatim>\<open>v[lo:hi]\<close> for \<open>0 \<le> lo\<close>, \<open>0 \<le> hi\<close>; it is clipped at the end of \<open>v\<close>.\<close>

definition slice :: "'a list \<Rightarrow> nat \<Rightarrow> nat \<Rightarrow> 'a list" where
  "slice v lo hi = take (hi - lo) (drop lo v)"

text \<open>\<^verbatim>\<open>dot(u, v)\<close> of two vectors, and \<^verbatim>\<open>dot(A, v)\<close> of a matrix and a vector.\<close>

definition dot :: "vec \<Rightarrow> vec \<Rightarrow> real" where
  "dot u v = sum_list (map2 (*) u v)"

definition matvec :: "mat \<Rightarrow> vec \<Rightarrow> vec" where
  "matvec A v = map (\<lambda>row. dot row v) A"

definition vsub :: "vec \<Rightarrow> vec \<Rightarrow> vec" where
  "vsub u v = map2 (-) u v"

definition vadd :: "vec \<Rightarrow> vec \<Rightarrow> vec" where
  "vadd u v = map2 (+) u v"

definition vscale :: "vec \<Rightarrow> real \<Rightarrow> vec" where
  "vscale v c = map (\<lambda>a. a * c) v"

text \<open>\<^verbatim>\<open>numpy.linalg.norm(v, 2)\<close>.\<close>

definition norm2 :: "vec \<Rightarrow> real" where
  "norm2 v = sqrt (sum_list (map (\<lambda>c. c * c) v))"

subsection \<open>The first value of \<^verbatim>\<open>tol\<close>\<close>

text \<open>
  Each solver starts with \<^verbatim>\<open>tol=eps+1\<close>, so that the first test \<^verbatim>\<open>tol>eps\<close>
  lets the loop begin. The sum is a float64 sum: it is rounded to the nearest float, a
  tie going to the float with the even mantissa, and a large \<open>eps\<close> absorbs the \<open>1\<close>.
  For a float64 number \<open>eps\<close>:
  \<^item> from \<open>2 ^ 54\<close> on in absolute value, neighbouring floats are at least 4 apart
    and the sum rounds back to \<open>eps\<close>;
  \<^item> for \<open>2 ^ 53 \<le> eps < 2 ^ 54\<close> and for \<open>- (2 ^ 54) < eps < - (2 ^ 53)\<close> the floats
    are the even integers and the sum is a tie: it rounds to \<open>eps\<close> when the mantissa
    of \<open>eps\<close> is even, that is when 4 divides \<open>eps\<close>, and to the neighbour on the
    other side otherwise;
  \<^item> for \<open>- (2 ^ 53) \<le> eps < 2 ^ 53\<close> the sum lies above \<open>eps\<close> (at \<open>- (2 ^ 53)\<close>
    it is the float \<open>- (2 ^ 53) + 1\<close>).

  So \<^verbatim>\<open>1e16+1\<close> is \<^verbatim>\<open>1e16\<close> and \<^verbatim>\<open>-1e16+1\<close> is \<^verbatim>\<open>-1e16\<close>.
  \<open>float_absorbs_one eps\<close> says that the float64 sum \<^verbatim>\<open>eps+1\<close> is \<open>eps\<close> again.
  \<open>initial_tol eps\<close> is the value of \<^verbatim>\<open>tol\<close> after \<^verbatim>\<open>tol=eps+1\<close>: \<open>eps\<close> when
  the \<open>1\<close> is absorbed, and otherwise the exact sum, which like the float sum is above
  \<open>eps\<close>. This first value is only ever compared with \<open>eps\<close>.
\<close>

definition float_absorbs_one :: "real \<Rightarrow> bool" where
  "float_absorbs_one eps \<longleftrightarrow>
     2 ^ 54 \<le> \<bar>eps\<bar>
     \<or> ((2 ^ 53 \<le> eps \<or> eps < - (2 ^ 53)) \<and> of_int \<lfloor>eps / 4\<rfloor> = eps / 4)"

definition initial_tol :: "real \<Rightarrow> real" where
  "initial_tol eps = (if float_absorbs_one eps then eps else eps + 1)"

subsection \<open>The local variables of a solver\<close>

record locals =
  v_x :: vec
  v_x_old :: vec
  v_tol :: real
  v_it :: int

subsection \<open>Jacobi\<close>

text \<open>
  \<^verbatim>\<open>
  def jacobi(A,b,nmax=10000,eps=1e-10):
      N=len(A)
      x=zeros_like(b)
      x_old=ones_like(b)
      tol=eps+1
      it=0
      while(it<nmax and tol>eps):
          it+=1
          for i in range(N):
              x[i]=1./A[i,i]*(b[i]-dot(A[i,0:i],x_old[0:i]) - dot(A[i,i+1:N],x_old[i+1:N]))
      res= b-dot(A,x)
      tol=numpy.linalg.norm(res,2)

      x_old =x.copy()

      print it, tol
      return x
  \<close>
  The three statements after the \<^verbatim>\<open>for\<close> loop are indented at the level of the
  \<^verbatim>\<open>while\<close>: they run once, after the loop.
\<close>

definition jacobi_entry :: "mat \<Rightarrow> vec \<Rightarrow> nat \<Rightarrow> vec \<Rightarrow> nat \<Rightarrow> real" where
  "jacobi_entry A b N xo i =
     1 / (A ! i ! i) *
       (b ! i - dot (slice (A ! i) 0 i) (slice xo 0 i)
              - dot (slice (A ! i) (i + 1) N) (slice xo (i + 1) N))"

text \<open>The \<^verbatim>\<open>for i in range(N)\<close> loop: one sweep, writing into \<open>x\<close> in place.\<close>

definition jacobi_sweep :: "mat \<Rightarrow> vec \<Rightarrow> nat \<Rightarrow> vec \<Rightarrow> vec \<Rightarrow> vec" where
  "jacobi_sweep A b N xo xc = fold (\<lambda>i xs. xs[i := jacobi_entry A b N xo i]) [0..<N] xc"

definition jacobi_body :: "mat \<Rightarrow> vec \<Rightarrow> nat \<Rightarrow> locals \<Rightarrow> locals" where
  "jacobi_body A b N s =
     s\<lparr>v_it := v_it s + 1, v_x := jacobi_sweep A b N (v_x_old s) (v_x s)\<rparr>"

function jacobi_while :: "mat \<Rightarrow> vec \<Rightarrow> int \<Rightarrow> real \<Rightarrow> nat \<Rightarrow> locals \<Rightarrow> locals" where
  "jacobi_while A b nmax eps N s =
     (if v_it s < nmax \<and> v_tol s > eps
      then jacobi_while A b nmax eps N (jacobi_body A b N s)
      else s)"
  by pat_completeness auto
termination
  by (relation "measure (\<lambda>(A, b, nmax, eps, N, s). nat (nmax - v_it s))")
     (auto simp: jacobi_body_def)

text \<open>The locals before the \<^verbatim>\<open>while\<close> loop, and when \<^verbatim>\<open>jacobi\<close> reaches its \<^verbatim>\<open>print\<close>.\<close>

definition jacobi_init :: "vec \<Rightarrow> real \<Rightarrow> locals" where
  "jacobi_init b eps =
     \<lparr>v_x = zeros_like b, v_x_old = ones_like b, v_tol = initial_tol eps, v_it = 0\<rparr>"

definition jacobi_run :: "mat \<Rightarrow> vec \<Rightarrow> int \<Rightarrow> real \<Rightarrow> locals" where
  "jacobi_run A b nmax eps =
     (let N = length A;
          s = jacobi_while A b nmax eps N (jacobi_init b eps);
          res = vsub b (matvec A (v_x s))
      in s\<lparr>v_tol := norm2 res, v_x_old := v_x s\<rparr>)"

text \<open>The returned vector, and the pair that is printed.\<close>

definition jacobi :: "mat \<Rightarrow> vec \<Rightarrow> int \<Rightarrow> real \<Rightarrow> vec" where
  "jacobi A b nmax eps = v_x (jacobi_run A b nmax eps)"

definition jacobi_printed :: "mat \<Rightarrow> vec \<Rightarrow> int \<Rightarrow> real \<Rightarrow> int \<times> real" where
  "jacobi_printed A b nmax eps =
     (let s = jacobi_run A b nmax eps in (v_it s, v_tol s))"

text \<open>The locals after \<open>k\<close> passes through the body of the \<^verbatim>\<open>while\<close> loop.\<close>

definition jacobi_state :: "mat \<Rightarrow> vec \<Rightarrow> real \<Rightarrow> nat \<Rightarrow> locals" where
  "jacobi_state A b eps k = (jacobi_body A b (length A) ^^ k) (jacobi_init b eps)"

subsection \<open>Gauss-Seidel\<close>

text \<open>
  \<^verbatim>\<open>
  def gauss_seidel(A,b,nmax=10000,eps=1e-10):
      N=len(A)
      x=zeros_like(b)
      x_old=ones_like(b)
      tol=eps+1
      it=0
      while(it<nmax and tol>eps):
          it+=1
          for i in range(N):
              x[i]=1./A[i,i]*(b[i]-dot(A[i,0:i],x[0:i]) - dot(A[i,i+1:N],x_old[i+1:N]))

          res= b-dot(A,x)
          tol=numpy.linalg.norm(res,2)

          x_old =x.copy()

      print it, tol
      return x
  \<close>
\<close>

definition gauss_seidel_entry :: "mat \<Rightarrow> vec \<Rightarrow> nat \<Rightarrow> vec \<Rightarrow> vec \<Rightarrow> nat \<Rightarrow> real" where
  "gauss_seidel_entry A b N xo xc i =
     1 / (A ! i ! i) *
       (b ! i - dot (slice (A ! i) 0 i) (slice xc 0 i)
              - dot (slice (A ! i) (i + 1) N) (slice xo (i + 1) N))"

definition gauss_seidel_sweep :: "mat \<Rightarrow> vec \<Rightarrow> nat \<Rightarrow> vec \<Rightarrow> vec \<Rightarrow> vec" where
  "gauss_seidel_sweep A b N xo xc =
     fold (\<lambda>i xs. xs[i := gauss_seidel_entry A b N xo xs i]) [0..<N] xc"

definition gauss_seidel_body :: "mat \<Rightarrow> vec \<Rightarrow> nat \<Rightarrow> locals \<Rightarrow> locals" where
  "gauss_seidel_body A b N s =
     (let x' = gauss_seidel_sweep A b N (v_x_old s) (v_x s);
          res = vsub b (matvec A x')
      in \<lparr>v_x = x', v_x_old = x', v_tol = norm2 res, v_it = v_it s + 1\<rparr>)"

function gauss_seidel_while :: "mat \<Rightarrow> vec \<Rightarrow> int \<Rightarrow> real \<Rightarrow> nat \<Rightarrow> locals \<Rightarrow> locals" where
  "gauss_seidel_while A b nmax eps N s =
     (if v_it s < nmax \<and> v_tol s > eps
      then gauss_seidel_while A b nmax eps N (gauss_seidel_body A b N s)
      else s)"
  by pat_completeness auto
termination
  by (relation "measure (\<lambda>(A, b, nmax, eps, N, s). nat (nmax - v_it s))")
     (auto simp: gauss_seidel_body_def Let_def)

definition gauss_seidel_init :: "vec \<Rightarrow> real \<Rightarrow> locals" where
  "gauss_seidel_init b eps =
     \<lparr>v_x = zeros_like b, v_x_old = ones_like b, v_tol = initial_tol eps, v_it = 0\<rparr>"

definition gauss_seidel_run :: "mat \<Rightarrow> vec \<Rightarrow> int \<Rightarrow> real \<Rightarrow> locals" where
  "gauss_seidel_run A b nmax eps =
     gauss_seidel_while A b nmax eps (length A) (gauss_seidel_init b eps)"

definition gauss_seidel :: "mat \<Rightarrow> vec \<Rightarrow> int \<Rightarrow> real \<Rightarrow> vec" where
  "gauss_seidel A b nmax eps = v_x (gauss_seidel_run A b nmax eps)"



definition gauss_seidel_state :: "mat \<Rightarrow> vec \<Rightarrow> real \<Rightarrow> nat \<Rightarrow> locals" where
  "gauss_seidel_state A b eps k =
     (gauss_seidel_body A b (length A) ^^ k) (gauss_seidel_init b eps)"

subsection \<open>Gradient method\<close>

text \<open>
  \<^verbatim>\<open>
  def gradient(A,b,P,nmax=8000,eps=1e-10):
      n=len(A)
      z=zeros_like(b)
      tol=eps+1
      r=b-dot(A,x)
      it=0
      while(it<nmax and tol>eps):
          z=linalg.solve(P,r)
          alpha=dot(r,z)/(dot(z,dot(A,z)))
          x+=z*alpha
          r-=dot(A,z)*alpha
          tol=numpy.linalg.norm(r,2)
          it+=1
      print it, tol
  \<close>
  The statement \<^verbatim>\<open>x+=z*alpha\<close> makes \<^verbatim>\<open>x\<close> a local variable of the function, and
  \<^verbatim>\<open>x\<close> is not a parameter: its slot is empty when \<^verbatim>\<open>r=b-dot(A,x)\<close> reads it.
  Reading an empty slot raises \<^verbatim>\<open>UnboundLocalError\<close>. The function has no
  \<^verbatim>\<open>return\<close> statement. \<^verbatim>\<open>linalg.solve\<close> belongs to numpy and is a parameter of
  the model.
\<close>

record gradient_locals =
  g_x :: vec
  g_z :: vec
  g_r :: vec
  g_tol :: real
  g_it :: int

definition load_local :: "string \<Rightarrow> 'a option \<Rightarrow> py_error + 'a" where
  "load_local name slot =
     (case slot of None \<Rightarrow> Inl (UnboundLocalError name) | Some a \<Rightarrow> Inr a)"

definition gradient_body :: "(mat \<Rightarrow> vec \<Rightarrow> vec) \<Rightarrow> mat \<Rightarrow> mat \<Rightarrow> gradient_locals \<Rightarrow> gradient_locals" where
  "gradient_body solve A P s =
     (let z = solve P (g_r s);
          alpha = dot (g_r s) z / dot z (matvec A z);
          x' = vadd (g_x s) (vscale z alpha);
          r' = vsub (g_r s) (vscale (matvec A z) alpha)
      in \<lparr>g_x = x', g_z = z, g_r = r', g_tol = norm2 r', g_it = g_it s + 1\<rparr>)"

function gradient_while ::
  "(mat \<Rightarrow> vec \<Rightarrow> vec) \<Rightarrow> mat \<Rightarrow> mat \<Rightarrow> int \<Rightarrow> real \<Rightarrow> gradient_locals \<Rightarrow> gradient_locals" where
  "gradient_while solve A P nmax eps s =
     (if g_it s < nmax \<and> g_tol s > eps
      then gradient_while solve A P nmax eps (gradient_body solve A P s)
      else s)"
  by pat_completeness auto
termination
  by (relation "measure (\<lambda>(solve, A, P, nmax, eps, s). nat (nmax - g_it s))")
     (auto simp: gradient_body_def Let_def)

text \<open>
  \<open>gradient_from\<close> is the body of \<^verbatim>\<open>gradient\<close> for a given content of the slot of
  \<^verbatim>\<open>x\<close>; \<open>gradient_run\<close> is the function as written, where the slot is empty.
\<close>

definition gradient_from ::
  "vec option \<Rightarrow> (mat \<Rightarrow> vec \<Rightarrow> vec) \<Rightarrow> mat \<Rightarrow> vec \<Rightarrow> mat \<Rightarrow> int \<Rightarrow> real
     \<Rightarrow> py_error + gradient_locals" where
  "gradient_from x_slot solve A b P nmax eps =
     (case load_local ''x'' x_slot of
        Inl e \<Rightarrow> Inl e
      | Inr xv \<Rightarrow>
          Inr (gradient_while solve A P nmax eps
                 \<lparr>g_x = xv, g_z = zeros_like b, g_r = vsub b (matvec A xv),
                  g_tol = initial_tol eps, g_it = 0\<rparr>))"

definition gradient_run ::
  "(mat \<Rightarrow> vec \<Rightarrow> vec) \<Rightarrow> mat \<Rightarrow> vec \<Rightarrow> mat \<Rightarrow> int \<Rightarrow> real \<Rightarrow> py_error + gradient_locals" where
  "gradient_run solve A b P nmax eps = gradient_from None solve A b P nmax eps"

text \<open>What a call evaluates to: an exception, or \<^verbatim>\<open>None\<close> (here \<open>()\<close>).\<close>

definition gradient ::
  "(mat \<Rightarrow> vec \<Rightarrow> vec) \<Rightarrow> mat \<Rightarrow> vec \<Rightarrow> mat \<Rightarrow> int \<Rightarrow> real \<Rightarrow> py_error + unit" where
  "gradient solve A b P nmax eps =
     (case gradient_run solve A b P nmax eps of Inl e \<Rightarrow> Inl e | Inr s \<Rightarrow> Inr ())"

text \<open>\<^verbatim>\<open>identity(m)\<close>, the preconditioner of the first call in the notebook.\<close>

definition identity :: "nat \<Rightarrow> mat" where
  "identity m = map (\<lambda>i. map (\<lambda>j. if i = j then 1 else 0) [0..<m]) [0..<m]"

subsection \<open>Assembling the system\<close>

text \<open>
  The top-level cells of the notebook, with the number of sample points \<^verbatim>\<open>n\<close> (33 in the
  notebook) as a parameter:
  \<^verbatim>\<open>
  n = 33
  h = 1./(n-1)
  x=linspace(0,1,n)

  a = -ones((n-1,)) # Offdiagonal entries
  b = 2*ones((n,)) # Diagonal entries
  A = (diag(a, -1) + diag(b, 0) + diag(a, +1))
  A /= h**2

  f =x*(1.-x)
  A[0,:] = 0
  A[:,0] = 0
  A[0,0] = 1.
  A[:,-1] = 0
  A[-1,:] = 0
  A[-1,-1] = 1
  f[0] = 0
  f[-1] = 0
  \<close>
\<close>

text \<open>\<^verbatim>\<open>linspace(lo, hi, m)\<close>: \<open>m\<close> equispaced samples, both ends included.\<close>

definition linspace :: "real \<Rightarrow> real \<Rightarrow> nat \<Rightarrow> vec" where
  "linspace lo hi m = map (\<lambda>i. lo + real i * ((hi - lo) / real (m - 1))) [0..<m]"

text \<open>\<^verbatim>\<open>diag(v, k)\<close>: the square matrix with \<open>v\<close> on its \<open>k\<close>-th diagonal.\<close>

definition diag :: "vec \<Rightarrow> int \<Rightarrow> mat" where
  "diag v k =
     (let m = length v + nat \<bar>k\<bar>
      in map (\<lambda>i. map (\<lambda>j. if int j - int i = k then v ! min i j else 0) [0..<m]) [0..<m])"

definition madd :: "mat \<Rightarrow> mat \<Rightarrow> mat" where
  "madd B C = map2 (map2 (+)) B C"

definition mdiv :: "mat \<Rightarrow> real \<Rightarrow> mat" where
  "mdiv B c = map (map (\<lambda>a. a / c)) B"

text \<open>\<^verbatim>\<open>A[i,:] = c\<close>, \<^verbatim>\<open>A[:,j] = c\<close> and \<^verbatim>\<open>A[i,j] = c\<close>.\<close>

definition set_row :: "mat \<Rightarrow> nat \<Rightarrow> real \<Rightarrow> mat" where
  "set_row B i c = B[i := map (\<lambda>_. c) (B ! i)]"

definition set_col :: "mat \<Rightarrow> nat \<Rightarrow> real \<Rightarrow> mat" where
  "set_col B j c = map (\<lambda>row. row[j := c]) B"

definition set_entry :: "mat \<Rightarrow> nat \<Rightarrow> nat \<Rightarrow> real \<Rightarrow> mat" where
  "set_entry B i j c = B[i := (B ! i)[j := c]]"

definition mesh_h :: "nat \<Rightarrow> real" where
  "mesh_h n = 1 / real (n - 1)"

definition stiffness :: "nat \<Rightarrow> mat" where
  "stiffness n =
     (let a = map uminus (ones (n - 1));
          b = map (\<lambda>c. 2 * c) (ones n);
          A = madd (madd (diag a (- 1)) (diag b 0)) (diag a 1)
      in mdiv A ((mesh_h n)\<^sup>2))"

text \<open>The index \<^verbatim>\<open>-1\<close> is the last row, column or entry.\<close>

definition impose_bc_A :: "mat \<Rightarrow> mat" where
  "impose_bc_A A0 =
     (let last_i = length A0 - 1;
          A1 = set_row A0 0 0;
          A2 = set_col A1 0 0;
          A3 = set_entry A2 0 0 1;
          A4 = set_col A3 last_i 0;
          A5 = set_row A4 last_i 0
      in set_entry A5 last_i last_i 1)"

definition rhs :: "nat \<Rightarrow> vec" where
  "rhs n =
     (let x = linspace 0 1 n;
          f = map2 (*) x (map (\<lambda>t. 1 - t) x);
          f1 = f[0 := 0]
      in f1[length f1 - 1 := 0])"

text \<open>
  For \<^verbatim>\<open>n = 1\<close> the division \<^verbatim>\<open>1./(n-1)\<close> raises \<^verbatim>\<open>ZeroDivisionError\<close>; for
  \<^verbatim>\<open>n < 1\<close> numpy refuses the negative length with \<^verbatim>\<open>ValueError\<close>.
\<close>

definition assemble :: "int \<Rightarrow> py_error + mat \<times> vec" where
  "assemble n =
     (if n = 1 then Inl ZeroDivisionError
      else if n < 1 then Inl ValueError
      else Inr (impose_bc_A (stiffness (nat n)), rhs (nat n)))"


subsection \<open>Shapes\<close>

text \<open>A numpy array of shape \<open>(n, n)\<close>.\<close>

definition square :: "mat \<Rightarrow> nat \<Rightarrow> bool" where
  "square B n \<longleftrightarrow> length B = n \<and> (\<forall>i<n. length (B ! i) = n)"

text \<open>A row of the system that fixes the unknown \<open>i\<close> to zero.\<close>

definition dirichlet_row :: "mat \<Rightarrow> vec \<Rightarrow> nat \<Rightarrow> bool" where
  "dirichlet_row A b i \<longleftrightarrow>
     i < length A \<and> i < length b \<and> length A \<le> length (A ! i) \<and> b ! i = 0
     \<and> (\<forall>j<length A. j \<noteq> i \<longrightarrow> A ! i ! j = 0)"

text \<open>
  Not part of the notebook: the energy of a grid function, the sum of its squared
  differences over \<open>m\<close> intervals. It measures the step between two Gauss-Seidel iterates
  in the convergence proof for the system with 33 points.
\<close>

definition energy :: "nat \<Rightarrow> (nat \<Rightarrow> real) \<Rightarrow> real" where
  "energy m v = (\<Sum>j<m. (v (Suc j) - v j)\<^sup>2)"

text \<open>
  For the identity preconditioner of the notebook's first call of \<^verbatim>\<open>gradient\<close>,
  \<^verbatim>\<open>linalg.solve(P, r)\<close> is \<open>r\<close>.
\<close>

definition solve_identity :: "mat \<Rightarrow> vec \<Rightarrow> vec" where
  "solve_identity P r = r"

section \<open>Properties\<close>

declare jacobi_while.simps [simp del]
declare gauss_seidel_while.simps [simp del]
declare gradient_while.simps [simp del]

text \<open>Unfolding rules for running the solvers on concrete arrays.\<close>

lemmas jacobi_unfold =
  jacobi_def jacobi_printed_def jacobi_run_def jacobi_init_def initial_tol_def
  float_absorbs_one_def jacobi_while.simps
  jacobi_body_def jacobi_sweep_def jacobi_entry_def zeros_like_def ones_like_def
  dot_def slice_def matvec_def vsub_def norm2_def Let_def


subsection \<open>The first test of a loop\<close>

text \<open>
  A tolerance below \<open>2 ^ 53\<close> in absolute value does not absorb the \<open>1\<close>, and the first
  value of \<^verbatim>\<open>tol\<close> is above \<open>eps\<close> exactly when the \<open>1\<close> is not absorbed.
\<close>

lemma float_absorbs_one_small: "\<bar>eps\<bar> < 2 ^ 53 \<Longrightarrow> \<not> float_absorbs_one eps"
  by (auto simp: float_absorbs_one_def)

lemma initial_tol_above: "eps < initial_tol eps \<longleftrightarrow> \<not> float_absorbs_one eps"
  by (simp add: initial_tol_def)

subsection \<open>One sweep writes every entry below \<open>N\<close>\<close>

lemma fold_update_upt:
  "fold (\<lambda>i xs. xs[i := g i]) [0..<N] xc =
     map (\<lambda>i. if i < N then g i else xc ! i) [0..<length xc]"
proof (induction N)
  case 0
  show ?case by (simp add: map_nth)
next
  case (Suc N)
  show ?case
    by (rule nth_equalityI) (auto simp: Suc nth_list_update less_Suc_eq)
qed

lemma jacobi_sweep_eq:
  "jacobi_sweep A b N xo xc =
     map (\<lambda>i. if i < N then jacobi_entry A b N xo i else xc ! i) [0..<length xc]"
  unfolding jacobi_sweep_def by (rule fold_update_upt)

lemma length_jacobi_sweep [simp]: "length (jacobi_sweep A b N xo xc) = length xc"
  by (simp add: jacobi_sweep_eq)

lemma jacobi_sweep_idem:
  "jacobi_sweep A b N xo (jacobi_sweep A b N xo xc) = jacobi_sweep A b N xo xc"
  by (rule nth_equalityI) (simp_all add: jacobi_sweep_eq)

subsection \<open>The loop of \<^verbatim>\<open>jacobi\<close>\<close>

lemma jacobi_body_funpow_x_old: "v_x_old ((jacobi_body A b N ^^ k) s) = v_x_old s"
  by (induction k) (simp_all add: jacobi_body_def)

lemma jacobi_body_funpow_tol: "v_tol ((jacobi_body A b N ^^ k) s) = v_tol s"
  by (induction k) (simp_all add: jacobi_body_def)

lemma jacobi_body_funpow_it: "v_it ((jacobi_body A b N ^^ k) s) = v_it s + int k"
  by (induction k) (simp_all add: jacobi_body_def)

lemma jacobi_body_funpow_x:
  "v_x ((jacobi_body A b N ^^ Suc k) s) = jacobi_sweep A b N (v_x_old s) (v_x s)"
proof (induction k)
  case 0
  show ?case by (simp add: jacobi_body_def)
next
  case (Suc k)
  have "v_x ((jacobi_body A b N ^^ Suc (Suc k)) s) =
        jacobi_sweep A b N (v_x_old ((jacobi_body A b N ^^ Suc k) s))
          (v_x ((jacobi_body A b N ^^ Suc k) s))"
    by (simp add: jacobi_body_def)
  also have "\<dots> = jacobi_sweep A b N (v_x_old s) (jacobi_sweep A b N (v_x_old s) (v_x s))"
    by (simp only: Suc jacobi_body_funpow_x_old)
  finally show ?case by (simp add: jacobi_sweep_idem)
qed

text \<open>
  The body leaves \<^verbatim>\<open>tol\<close> alone, so the loop that starts above the tolerance runs
  until the counter reaches \<^verbatim>\<open>nmax\<close>.
\<close>

lemma jacobi_while_funpow:
  "eps < v_tol s \<Longrightarrow>
     jacobi_while A b nmax eps N s = (jacobi_body A b N ^^ nat (nmax - v_it s)) s"
proof (induction A b nmax eps N s rule: jacobi_while.induct)
  case (1 A b nmax eps N s)
  show ?case
  proof (cases "v_it s < nmax")
    case True
    have t: "eps < v_tol (jacobi_body A b N s)"
      using "1.prems" by (simp add: jacobi_body_def)
    have "nat (nmax - v_it s) = Suc (nat (nmax - v_it (jacobi_body A b N s)))"
      using True by (simp add: jacobi_body_def)
    moreover have "jacobi_while A b nmax eps N s =
        (jacobi_body A b N ^^ nat (nmax - v_it (jacobi_body A b N s))) (jacobi_body A b N s)"
      using True "1.prems" "1.IH" t by (subst jacobi_while.simps) simp
    ultimately show ?thesis by (simp add: funpow_swap1)
  next
    case False
    then show ?thesis by (subst jacobi_while.simps) simp
  qed
qed

lemma jacobi_while_skip: "\<not> eps < v_tol s \<Longrightarrow> jacobi_while A b nmax eps N s = s"
  by (subst jacobi_while.simps) simp

text \<open>
  From the initial locals the loop runs \<open>nmax\<close> times, or not at all when \<open>eps\<close> absorbs
  the \<open>1\<close> of \<^verbatim>\<open>tol=eps+1\<close>.
\<close>

lemma jacobi_while_init:
  "jacobi_while A b nmax eps N (jacobi_init b eps) =
     (jacobi_body A b N ^^ (if float_absorbs_one eps then 0 else nat nmax))
       (jacobi_init b eps)"
proof (cases "float_absorbs_one eps")
  case True
  then have "\<not> eps < v_tol (jacobi_init b eps)"
    by (simp add: jacobi_init_def initial_tol_def)
  then show ?thesis using True by (simp add: jacobi_while_skip)
next
  case False
  then have "eps < v_tol (jacobi_init b eps)"
    by (simp add: jacobi_init_def initial_tol_def)
  from jacobi_while_funpow [OF this, of A b nmax N] False
  show ?thesis by (simp add: jacobi_init_def)
qed

lemma jacobi_run_eq:
  "jacobi_run A b nmax eps =
     (let s = jacobi_state A b eps (if float_absorbs_one eps then 0 else nat nmax)
      in s\<lparr>v_tol := norm2 (vsub b (matvec A (v_x s))), v_x_old := v_x s\<rparr>)"
  by (simp only: jacobi_run_def jacobi_while_init jacobi_state_def Let_def)

lemma jacobi_state_it: "v_it (jacobi_state A b eps k) = int k"
  by (simp add: jacobi_state_def jacobi_body_funpow_it) (simp add: jacobi_init_def)

lemma jacobi_run_it:
  "0 \<le> nmax \<Longrightarrow> \<not> float_absorbs_one eps \<Longrightarrow> v_it (jacobi_run A b nmax eps) = nmax"
  by (simp add: jacobi_run_eq Let_def jacobi_state_it)

lemma jacobi_state_x:
  "v_x (jacobi_state A b eps k) =
     (if k = 0 then zeros_like b
      else jacobi_sweep A b (length A) (ones_like b) (zeros_like b))"
proof (cases k)
  case 0
  then show ?thesis by (simp add: jacobi_state_def jacobi_init_def)
next
  case (Suc k')
  then show ?thesis
    by (simp add: jacobi_state_def jacobi_body_funpow_x del: funpow.simps)
       (simp add: jacobi_init_def)
qed

lemma jacobi_eq_state:
  "jacobi A b nmax eps =
     v_x (jacobi_state A b eps (if float_absorbs_one eps then 0 else nat nmax))"
  by (simp add: jacobi_def jacobi_run_eq Let_def)

text \<open>A tolerance that absorbs the \<open>1\<close> makes \<^verbatim>\<open>jacobi\<close> return the vector of zeros.\<close>

lemma jacobi_no_sweep:
  "nmax \<le> 0 \<or> float_absorbs_one eps \<Longrightarrow>
     jacobi A b nmax eps = zeros_like b \<and> v_it (jacobi_run A b nmax eps) = 0"
  by (auto simp: jacobi_eq_state jacobi_state_x jacobi_run_eq Let_def jacobi_state_it)

text \<open>
  Claim C2. \<^verbatim>\<open>jacobi\<close> is to stop as soon as the residual norm is at most \<open>eps\<close> or
  the counter reaches \<open>nmax\<close>. On \<open>A = [[1]]\<close>, \<open>b = [1]\<close>, \<open>eps = 0\<close> the first sweep
  already gives residual norm 0, as the call with \<open>nmax = 1\<close> prints; the call with
  \<open>nmax = 3\<close> still performs 3 iterations.
\<close>

theorem jacobi_overruns_tolerance:
  "norm2 (vsub [1] (matvec [[1]]
      (jacobi_sweep [[1]] [1] 1 (ones_like [1]) (zeros_like [1])))) = 0
   \<and> jacobi_printed [[1]] [1] 1 0 = (1, 0)
   \<and> jacobi_printed [[1]] [1] 3 0 = (3, 0)
   \<and> jacobi [[1]] [1] 3 0 = [1]"
  by (simp add: jacobi_unfold)

text \<open>
  Claim C3. Every sweep of \<^verbatim>\<open>jacobi\<close> is to read the iterate of the sweep before. On
  \<open>A = [[2, 1], [1, 2]]\<close>, \<open>b = [0, 0]\<close> the first iterate is \<open>[-1/2, -1/2]\<close>; the
  Jacobi formula applied to it gives \<open>[1/4, 1/4]\<close>, but the second sweep of the code reads
  the vector of ones again and returns \<open>[-1/2, -1/2]\<close>.
\<close>

theorem jacobi_rereads_initial_guess:
  "jacobi [[2, 1], [1, 2]] [0, 0] 1 0 = [- 1 / 2, - 1 / 2]
   \<and> jacobi [[2, 1], [1, 2]] [0, 0] 2 0 = [- 1 / 2, - 1 / 2]
   \<and> jacobi_sweep [[2, 1], [1, 2]] [0, 0] 2 [- 1 / 2, - 1 / 2] [- 1 / 2, - 1 / 2]
       = [1 / 4, 1 / 4]"
  by (simp add: jacobi_unfold numeral_2_eq_2)

subsection \<open>The gradient method\<close>

text \<open>
  Claim C5. Every call of \<^verbatim>\<open>gradient\<close> reads the local variable \<^verbatim>\<open>x\<close> in
  \<^verbatim>\<open>r=b-dot(A,x)\<close> before anything is assigned to it: the call raises
  \<^verbatim>\<open>UnboundLocalError\<close>, enters no iteration and returns nothing.
\<close>

theorem gradient_unbound_x:
  "gradient_run solve A b P nmax eps = Inl (UnboundLocalError ''x'')
   \<and> gradient solve A b P nmax eps = Inl (UnboundLocalError ''x'')"
  by (simp add: gradient_def gradient_run_def gradient_from_def load_local_def)

text \<open>
  Claim C6. With the preconditioner \<open>P = A\<close> the gradient method is to converge in one
  iteration. The second call of the notebook, \<^verbatim>\<open>gradient(A,f,A)\<close> on the assembled
  system with 33 points, raises \<^verbatim>\<open>UnboundLocalError\<close> instead, whatever
  \<^verbatim>\<open>linalg.solve\<close> computes.
\<close>

theorem gradient_preconditioned_by_A_raises:
  "assemble 33 = Inr (impose_bc_A (stiffness 33), rhs 33)
   \<and> gradient solve (impose_bc_A (stiffness 33)) (rhs 33) (impose_bc_A (stiffness 33))
         8000 (1 / 10 ^ 10)
       = Inl (UnboundLocalError ''x'')"
  by (simp add: assemble_def gradient_def gradient_run_def gradient_from_def load_local_def)


subsection \<open>The entries written by a sweep\<close>


lemma length_gs_fold:
  "length (fold (\<lambda>i xs. xs[i := g xs i]) [0..<k] xc) = length xc"
  by (induction k) simp_all

lemma gs_fold_above:
  "k \<le> j \<Longrightarrow> fold (\<lambda>i xs. xs[i := g xs i]) [0..<k] xc ! j = xc ! j"
  by (induction k) simp_all

lemma gs_fold_stable:
  "j < k \<Longrightarrow> k \<le> m \<Longrightarrow>
     fold (\<lambda>i xs. xs[i := g xs i]) [0..<m] xc ! j =
     fold (\<lambda>i xs. xs[i := g xs i]) [0..<k] xc ! j"
proof (induction m)
  case 0
  then show ?case by simp
next
  case (Suc m)
  show ?case
  proof (cases "k = Suc m")
    case True
    then show ?thesis by simp
  next
    case False
    with Suc.prems have "k \<le> m" by simp
    with Suc show ?thesis by simp
  qed
qed

lemma gs_fold_take:
  "i \<le> m \<Longrightarrow>
     take i (fold (\<lambda>i xs. xs[i := g xs i]) [0..<m] xc) =
     take i (fold (\<lambda>i xs. xs[i := g xs i]) [0..<i] xc)"
proof (rule nth_equalityI)
  fix j
  assume m: "i \<le> m"
    and "j < length (take i (fold (\<lambda>i xs. xs[i := g xs i]) [0..<m] xc))"
  then have j: "j < i" by simp
  from j m have "fold (\<lambda>i xs. xs[i := g xs i]) [0..<m] xc ! j =
             fold (\<lambda>i xs. xs[i := g xs i]) [0..<i] xc ! j"
    by (rule gs_fold_stable)
  with j show "take i (fold (\<lambda>i xs. xs[i := g xs i]) [0..<m] xc) ! j =
               take i (fold (\<lambda>i xs. xs[i := g xs i]) [0..<i] xc) ! j"
    by simp
qed (simp add: length_gs_fold)

lemma gs_fold_nth:
  assumes "i < m" and "i < length xc"
  shows "fold (\<lambda>i xs. xs[i := g xs i]) [0..<m] xc ! i =
           g (fold (\<lambda>i xs. xs[i := g xs i]) [0..<i] xc) i"
proof -
  have "fold (\<lambda>i xs. xs[i := g xs i]) [0..<m] xc ! i =
        fold (\<lambda>i xs. xs[i := g xs i]) [0..<Suc i] xc ! i"
    using assms(1) by (intro gs_fold_stable) simp_all
  also have "\<dots> = g (fold (\<lambda>i xs. xs[i := g xs i]) [0..<i] xc) i"
    using assms(2) by (simp add: length_gs_fold)
  finally show ?thesis .
qed

lemma gauss_seidel_entry_cong:
  "take i xc = take i xc' \<Longrightarrow>
     gauss_seidel_entry A b N xo xc i = gauss_seidel_entry A b N xo xc' i"
  by (simp add: gauss_seidel_entry_def slice_def)

lemma length_gauss_seidel_sweep [simp]:
  "length (gauss_seidel_sweep A b N xo xc) = length xc"
  unfolding gauss_seidel_sweep_def by (rule length_gs_fold)

lemma gauss_seidel_sweep_nth:
  assumes "i < N" and "i < length xc"
  shows "gauss_seidel_sweep A b N xo xc ! i =
           gauss_seidel_entry A b N xo (gauss_seidel_sweep A b N xo xc) i"
proof -
  let ?g = "gauss_seidel_entry A b N xo"
  have "take i (gauss_seidel_sweep A b N xo xc) =
        take i (fold (\<lambda>i xs. xs[i := ?g xs i]) [0..<i] xc)"
    unfolding gauss_seidel_sweep_def using assms(1) by (intro gs_fold_take) simp
  then have "?g (gauss_seidel_sweep A b N xo xc) i =
             ?g (fold (\<lambda>i xs. xs[i := ?g xs i]) [0..<i] xc) i"
    by (rule gauss_seidel_entry_cong)
  moreover have "gauss_seidel_sweep A b N xo xc ! i =
                 ?g (fold (\<lambda>i xs. xs[i := ?g xs i]) [0..<i] xc) i"
    unfolding gauss_seidel_sweep_def using assms by (rule gs_fold_nth)
  ultimately show ?thesis by simp
qed

lemma gauss_seidel_sweep_above:
  "N \<le> j \<Longrightarrow> gauss_seidel_sweep A b N xo xc ! j = xc ! j"
  unfolding gauss_seidel_sweep_def by (rule gs_fold_above)

lemma dot_Nil [simp]: "dot [] v = 0" "dot u [] = 0"
  by (simp_all add: dot_def)

lemma dot_append:
  "length u = length v \<Longrightarrow> dot (u @ u') (v @ v') = dot u v + dot u' v'"
  by (simp add: dot_def)

lemma dot_take:
  "i \<le> length u \<Longrightarrow> i \<le> length v \<Longrightarrow> dot (take i u) (take i v) = (\<Sum>j<i. u ! j * v ! j)"
proof (induction i)
  case 0
  show ?case by simp
next
  case (Suc i)
  then have "dot (take (Suc i) u) (take (Suc i) v) =
             dot (take i u @ [u ! i]) (take i v @ [v ! i])"
    by (simp add: take_Suc_conv_app_nth)
  also have "\<dots> = dot (take i u) (take i v) + u ! i * v ! i"
    using Suc.prems by (subst dot_append) (simp_all add: dot_def)
  finally show ?case using Suc by simp
qed

lemma dot_slice:
  assumes "lo \<le> hi" and "hi \<le> length u" and "hi \<le> length v"
  shows "dot (slice u lo hi) (slice v lo hi) = (\<Sum>j = lo..<hi. u ! j * v ! j)"
proof -
  have "dot (slice u lo hi) (slice v lo hi) =
        (\<Sum>j<hi - lo. drop lo u ! j * drop lo v ! j)"
    unfolding slice_def using assms by (intro dot_take) simp_all
  also have "\<dots> = (\<Sum>j<hi - lo. u ! (j + lo) * v ! (j + lo))"
    using assms by (intro sum.cong) (simp_all add: add.commute)
  also have "\<dots> = (\<Sum>j = lo..<hi. u ! j * v ! j)"
    using assms(1) sum.shift_bounds_nat_ivl [of "\<lambda>j. u ! j * v ! j" 0 lo "hi - lo"]
    by (simp add: lessThan_atLeast0)
  finally show ?thesis .
qed

lemma gauss_seidel_entry_sum:
  assumes "i < N" and "N \<le> length (A ! i)" and "N \<le> length xc" and "N \<le> length xo"
  shows "gauss_seidel_entry A b N xo xc i =
           (b ! i - (\<Sum>j<i. A ! i ! j * xc ! j) - (\<Sum>j = i + 1..<N. A ! i ! j * xo ! j))
             / A ! i ! i"
proof -
  have "dot (slice (A ! i) 0 i) (slice xc 0 i) = (\<Sum>j<i. A ! i ! j * xc ! j)"
    using assms by (subst dot_slice) (simp_all add: lessThan_atLeast0)
  moreover have "dot (slice (A ! i) (i + 1) N) (slice xo (i + 1) N) =
                 (\<Sum>j = i + 1..<N. A ! i ! j * xo ! j)"
    using assms by (subst dot_slice) simp_all
  ultimately show ?thesis by (simp add: gauss_seidel_entry_def)
qed

lemma jacobi_entry_sum:
  assumes "i < N" and "N \<le> length (A ! i)" and "N \<le> length xo"
  shows "jacobi_entry A b N xo i =
           (b ! i - ((\<Sum>j<N. A ! i ! j * xo ! j) - A ! i ! i * xo ! i)) / A ! i ! i"
proof -
  have 1: "dot (slice (A ! i) 0 i) (slice xo 0 i) = (\<Sum>j<i. A ! i ! j * xo ! j)"
    using assms by (subst dot_slice) (simp_all add: lessThan_atLeast0)
  have 2: "dot (slice (A ! i) (i + 1) N) (slice xo (i + 1) N) =
                 (\<Sum>j = i + 1..<N. A ! i ! j * xo ! j)"
    using assms by (subst dot_slice) simp_all
  have "(\<Sum>j<N. A ! i ! j * xo ! j) =
      (\<Sum>j<i. A ! i ! j * xo ! j) + (\<Sum>j = i..<N. A ! i ! j * xo ! j)"
    using assms(1) sum.atLeastLessThan_concat [of 0 i N "\<lambda>j. A ! i ! j * xo ! j"]
    by (simp add: lessThan_atLeast0)
  also have "(\<Sum>j = i..<N. A ! i ! j * xo ! j) =
      A ! i ! i * xo ! i + (\<Sum>j = i + 1..<N. A ! i ! j * xo ! j)"
    using assms(1) by (simp add: sum.atLeast_Suc_lessThan)
  finally have "(\<Sum>j<N. A ! i ! j * xo ! j) =
      (\<Sum>j<i. A ! i ! j * xo ! j) + A ! i ! i * xo ! i
       + (\<Sum>j = i + 1..<N. A ! i ! j * xo ! j)"
    by simp
  with 1 2 show ?thesis by (simp add: jacobi_entry_def)
qed

subsection \<open>A call of \<^verbatim>\<open>jacobi\<close> is one sweep from the vector of ones\<close>





subsection \<open>The loop of \<^verbatim>\<open>gauss_seidel\<close>\<close>

lemma gauss_seidel_while_funpow:
  "\<exists>k. gauss_seidel_while A b nmax eps N s = (gauss_seidel_body A b N ^^ k) s
     \<and> (\<forall>j<k. v_it ((gauss_seidel_body A b N ^^ j) s) < nmax
              \<and> eps < v_tol ((gauss_seidel_body A b N ^^ j) s))
     \<and> \<not> (v_it ((gauss_seidel_body A b N ^^ k) s) < nmax
              \<and> eps < v_tol ((gauss_seidel_body A b N ^^ k) s))"
proof (induction A b nmax eps N s rule: gauss_seidel_while.induct)
  case (1 A b nmax eps N s)
  let ?f = "gauss_seidel_body A b N"
  show ?case
  proof (cases "v_it s < nmax \<and> eps < v_tol s")
    case True
    from "1.IH" [OF True] obtain k where k:
      "gauss_seidel_while A b nmax eps N (?f s) = (?f ^^ k) (?f s)"
      "\<forall>j<k. v_it ((?f ^^ j) (?f s)) < nmax \<and> eps < v_tol ((?f ^^ j) (?f s))"
      "\<not> (v_it ((?f ^^ k) (?f s)) < nmax \<and> eps < v_tol ((?f ^^ k) (?f s)))"
      by blast
    have "gauss_seidel_while A b nmax eps N s = (?f ^^ Suc k) s"
      using True k(1) by (subst gauss_seidel_while.simps) (simp add: funpow_swap1)
    moreover have "\<forall>j<Suc k. v_it ((?f ^^ j) s) < nmax \<and> eps < v_tol ((?f ^^ j) s)"
    proof (intro allI impI)
      fix j assume "j < Suc k"
      show "v_it ((?f ^^ j) s) < nmax \<and> eps < v_tol ((?f ^^ j) s)"
      proof (cases j)
        case 0
        with True show ?thesis by simp
      next
        case (Suc j')
        with \<open>j < Suc k\<close> k(2) show ?thesis by (simp add: funpow_swap1)
      qed
    qed
    moreover have "\<not> (v_it ((?f ^^ Suc k) s) < nmax \<and> eps < v_tol ((?f ^^ Suc k) s))"
      using k(3) by (simp add: funpow_swap1)
    ultimately show ?thesis by blast
  next
    case False
    then have "gauss_seidel_while A b nmax eps N s = (?f ^^ 0) s"
      by (subst gauss_seidel_while.simps) auto
    with False show ?thesis by (intro exI [of _ 0]) simp
  qed
qed

lemma gauss_seidel_state_0: "gauss_seidel_state A b eps 0 = gauss_seidel_init b eps"
  by (simp add: gauss_seidel_state_def)

lemma gauss_seidel_state_Suc:
  "gauss_seidel_state A b eps (Suc k) =
     gauss_seidel_body A b (length A) (gauss_seidel_state A b eps k)"
  by (simp add: gauss_seidel_state_def)

lemma gauss_seidel_state_it: "v_it (gauss_seidel_state A b eps k) = int k"
  by (induction k)
     (simp_all add: gauss_seidel_state_0 gauss_seidel_state_Suc gauss_seidel_init_def
        gauss_seidel_body_def Let_def)

lemma gauss_seidel_state_x:
  "v_x (gauss_seidel_state A b eps (Suc k)) =
     gauss_seidel_sweep A b (length A) (v_x_old (gauss_seidel_state A b eps k))
       (v_x (gauss_seidel_state A b eps k))"
  by (simp add: gauss_seidel_state_Suc gauss_seidel_body_def Let_def)

lemma gauss_seidel_state_x_old:
  "v_x_old (gauss_seidel_state A b eps k) =
     (if k = 0 then ones_like b else v_x (gauss_seidel_state A b eps k))"
  by (cases k)
     (simp_all add: gauss_seidel_state_0 gauss_seidel_state_Suc gauss_seidel_init_def
        gauss_seidel_body_def Let_def)

lemma gauss_seidel_state_tol:
  "v_tol (gauss_seidel_state A b eps k) =
     (if k = 0 then initial_tol eps
      else norm2 (vsub b (matvec A (v_x (gauss_seidel_state A b eps k)))))"
  by (cases k)
     (simp_all add: gauss_seidel_state_0 gauss_seidel_state_Suc gauss_seidel_init_def
        gauss_seidel_body_def Let_def)

lemma gauss_seidel_state_length: "length (v_x (gauss_seidel_state A b eps k)) = length b"
  by (induction k)
     (simp_all add: gauss_seidel_state_0 gauss_seidel_state_Suc gauss_seidel_init_def
        gauss_seidel_body_def Let_def zeros_like_def)

lemma gauss_seidel_run_state:
  "\<exists>K. gauss_seidel_run A b nmax eps = gauss_seidel_state A b eps K
       \<and> int K \<le> max 0 nmax
       \<and> (nmax \<le> int K \<or> v_tol (gauss_seidel_state A b eps K) \<le> eps)
       \<and> (\<forall>j<K. eps < v_tol (gauss_seidel_state A b eps j))"
proof -
  from gauss_seidel_while_funpow [of A b nmax eps "length A" "gauss_seidel_init b eps"]
  obtain K where K:
    "gauss_seidel_run A b nmax eps = gauss_seidel_state A b eps K"
    "\<forall>j<K. v_it (gauss_seidel_state A b eps j) < nmax
             \<and> eps < v_tol (gauss_seidel_state A b eps j)"
    "\<not> (v_it (gauss_seidel_state A b eps K) < nmax
        \<and> eps < v_tol (gauss_seidel_state A b eps K))"
    unfolding gauss_seidel_run_def gauss_seidel_state_def by blast
  have le: "int K \<le> max 0 nmax"
  proof (cases K)
    case 0
    show ?thesis by (simp add: 0)
  next
    case (Suc K')
    with K(2) have "v_it (gauss_seidel_state A b eps K') < nmax" by simp
    with Suc show ?thesis by (simp add: gauss_seidel_state_it)
  qed
  from K(3) have "nmax \<le> int K \<or> v_tol (gauss_seidel_state A b eps K) \<le> eps"
    by (auto simp: gauss_seidel_state_it)
  with K(1,2) le show ?thesis by blast
qed





text \<open>
  A tolerance that absorbs the \<open>1\<close> makes \<^verbatim>\<open>gauss_seidel\<close> skip its loop: it returns the
  vector of zeros after \<open>0\<close> iterations, whatever the residual and the cap.
\<close>

lemma gauss_seidel_no_sweep:
  "float_absorbs_one eps \<Longrightarrow>
     gauss_seidel A b nmax eps = zeros_like b \<and> v_it (gauss_seidel_run A b nmax eps) = 0"
  by (simp add: gauss_seidel_def gauss_seidel_run_def gauss_seidel_init_def initial_tol_def
        gauss_seidel_while.simps)


subsection \<open>The assembled system\<close>


lemma length_diag: "length (diag v k) = length v + nat \<bar>k\<bar>"
  by (simp add: diag_def Let_def)

lemma diag_nth:
  "i < length v + nat \<bar>k\<bar> \<Longrightarrow> j < length v + nat \<bar>k\<bar> \<Longrightarrow>
     diag v k ! i ! j = (if int j - int i = k then v ! min i j else 0)"
  by (simp add: diag_def Let_def)

lemma length_diag_row:
  "i < length v + nat \<bar>k\<bar> \<Longrightarrow> length (diag v k ! i) = length v + nat \<bar>k\<bar>"
  by (simp add: diag_def Let_def)

lemma madd_nth:
  "i < length B \<Longrightarrow> i < length C \<Longrightarrow> j < length (B ! i) \<Longrightarrow> j < length (C ! i) \<Longrightarrow>
     madd B C ! i ! j = B ! i ! j + C ! i ! j"
  by (simp add: madd_def)

lemma length_madd: "length (madd B C) = min (length B) (length C)"
  by (simp add: madd_def)

lemma length_madd_row:
  "i < length B \<Longrightarrow> i < length C \<Longrightarrow>
     length (madd B C ! i) = min (length (B ! i)) (length (C ! i))"
  by (simp add: madd_def)

lemma length_stiffness: "1 \<le> n \<Longrightarrow> length (stiffness n) = n"
  by (simp add: stiffness_def Let_def mdiv_def length_madd length_diag ones_def)

lemma length_stiffness_row: "1 \<le> n \<Longrightarrow> i < n \<Longrightarrow> length (stiffness n ! i) = n"
  by (simp add: stiffness_def Let_def mdiv_def length_madd length_diag ones_def
      length_madd_row length_diag_row)

lemma stiffness_nth:
  assumes "1 \<le> n" and "i < n" and "j < n"
  shows "stiffness n ! i ! j =
           (if i = j then 2 else if i + 1 = j \<or> j + 1 = i then - 1 else 0) / (mesh_h n)\<^sup>2"
  using assms
  by (simp add: stiffness_def Let_def mdiv_def length_madd length_diag ones_def
      length_madd_row length_diag_row madd_nth diag_nth)



lemma square_set_row: "square B n \<Longrightarrow> square (set_row B i c) n"
  by (cases "i < length B") (auto simp: square_def set_row_def nth_list_update)

lemma square_set_col: "square B n \<Longrightarrow> square (set_col B j c) n"
  by (auto simp: square_def set_col_def)

lemma square_set_entry: "square B n \<Longrightarrow> square (set_entry B i j c) n"
  by (cases "i < length B") (auto simp: square_def set_entry_def nth_list_update)

lemma set_row_nth:
  "square B n \<Longrightarrow> k < n \<Longrightarrow> l < n \<Longrightarrow>
     set_row B i c ! k ! l = (if k = i then c else B ! k ! l)"
  by (cases "i < length B") (auto simp: square_def set_row_def nth_list_update)

lemma set_col_nth:
  "square B n \<Longrightarrow> k < n \<Longrightarrow> l < n \<Longrightarrow>
     set_col B j c ! k ! l = (if l = j then c else B ! k ! l)"
  by (auto simp: square_def set_col_def nth_list_update)

lemma set_entry_nth:
  "square B n \<Longrightarrow> k < n \<Longrightarrow> l < n \<Longrightarrow>
     set_entry B i j c ! k ! l = (if k = i \<and> l = j then c else B ! k ! l)"
  by (cases "i < length B"; cases "j < length (B ! i)")
     (auto simp: square_def set_entry_def nth_list_update)

lemma square_impose_bc_A: "square B n \<Longrightarrow> square (impose_bc_A B) n"
  by (simp add: impose_bc_A_def Let_def square_set_row square_set_col square_set_entry)

lemma impose_bc_A_nth:
  assumes "square B n" and "k < n" and "l < n"
  shows "impose_bc_A B ! k ! l =
           (if k = 0 \<or> k = n - 1 \<or> l = 0 \<or> l = n - 1
            then (if k = l then 1 else 0) else B ! k ! l)"
proof -
  have n: "length B = n" using assms(1) by (simp add: square_def)
  note sq = square_set_row square_set_col square_set_entry
  show ?thesis
    using assms
    by (simp add: impose_bc_A_def Let_def n set_entry_nth [where n = n]
          set_row_nth [where n = n] set_col_nth [where n = n] sq)
qed

lemma square_stiffness: "1 \<le> n \<Longrightarrow> square (stiffness n) n"
  by (simp add: square_def length_stiffness length_stiffness_row)

lemma length_rhs: "length (rhs n) = n"
  by (simp add: rhs_def Let_def linspace_def)

lemma rhs_boundary: "1 \<le> n \<Longrightarrow> rhs n ! 0 = 0 \<and> rhs n ! (n - 1) = 0"
  by (simp add: rhs_def Let_def linspace_def nth_list_update)

lemma rhs_interior:
  "1 \<le> i \<Longrightarrow> i + 1 < n \<Longrightarrow>
     rhs n ! i = (real i / real (n - 1)) * (1 - real i / real (n - 1))"
  by (simp add: rhs_def Let_def linspace_def nth_list_update)

text \<open>
  Claim C8. For \<open>n \<ge> 2\<close> sample points the assembly returns a pair \<open>(A, f)\<close>: \<open>A\<close> is
  square of size \<open>n\<close> and symmetric; in the interior it is tridiagonal with \<open>2/h\<^sup>2\<close> on the
  diagonal and \<open>-1/h\<^sup>2\<close> beside it, where \<open>h = 1/(n-1)\<close>; rows and columns \<open>0\<close> and
  \<open>n-1\<close> are zero except for the diagonal entries \<open>A[0,0] = A[n-1,n-1] = 1\<close>; \<open>f\<close> has
  length \<open>n\<close> and its entries \<open>0\<close> and \<open>n-1\<close> are zero. Every entry is a real number; the
  only division is by \<open>h\<^sup>2\<close> with \<open>h > 0\<close>.
\<close>

theorem assemble_dirichlet_system:
  assumes "2 \<le> n"
  shows "\<exists>A f. assemble n = Inr (A, f)
           \<and> length A = nat n \<and> (\<forall>i<nat n. length (A ! i) = nat n)
           \<and> (\<forall>i<nat n. \<forall>j<nat n. A ! i ! j = A ! j ! i)
           \<and> (\<forall>i j. 1 \<le> i \<and> i + 1 < nat n \<and> 1 \<le> j \<and> j + 1 < nat n \<longrightarrow>
                 A ! i ! j = (if i = j then 2 / (mesh_h (nat n))\<^sup>2
                             else if i + 1 = j \<or> j + 1 = i then - 1 / (mesh_h (nat n))\<^sup>2
                             else 0))
           \<and> (\<forall>j<nat n. 1 \<le> j \<longrightarrow> A ! 0 ! j = 0 \<and> A ! j ! 0 = 0)
           \<and> (\<forall>j<nat n. j + 1 < nat n \<longrightarrow>
                 A ! (nat n - 1) ! j = 0 \<and> A ! j ! (nat n - 1) = 0)
           \<and> A ! 0 ! 0 = 1 \<and> A ! (nat n - 1) ! (nat n - 1) = 1
           \<and> length f = nat n \<and> f ! 0 = 0 \<and> f ! (nat n - 1) = 0
           \<and> mesh_h (nat n) = 1 / (real_of_int n - 1) \<and> 0 < mesh_h (nat n)"
proof -
  let ?N = "nat n"
  let ?A = "impose_bc_A (stiffness ?N)"
  from assms have N: "2 \<le> ?N" by simp
  then have N1: "1 \<le> ?N" by simp
  have sq: "square (stiffness ?N) ?N" using N1 by (rule square_stiffness)
  then have sqA: "square ?A ?N" by (rule square_impose_bc_A)
  have ent: "?A ! k ! l =
      (if k = 0 \<or> k = ?N - 1 \<or> l = 0 \<or> l = ?N - 1 then (if k = l then 1 else 0)
       else (if k = l then 2 else if k + 1 = l \<or> l + 1 = k then - 1 else 0)
              / (mesh_h ?N)\<^sup>2)"
    if "k < ?N" "l < ?N" for k l
    using that by (simp add: impose_bc_A_nth [OF sq] stiffness_nth [OF N1])
  have a: "assemble n = Inr (?A, rhs ?N)"
    using assms by (simp add: assemble_def)
  have shape: "length ?A = ?N \<and> (\<forall>i<?N. length (?A ! i) = ?N)"
    using sqA by (simp add: square_def)
  have sym: "\<forall>i<?N. \<forall>j<?N. ?A ! i ! j = ?A ! j ! i"
    by (auto simp: ent)
  have inner: "\<forall>i j. 1 \<le> i \<and> i + 1 < ?N \<and> 1 \<le> j \<and> j + 1 < ?N \<longrightarrow>
                 ?A ! i ! j = (if i = j then 2 / (mesh_h ?N)\<^sup>2
                             else if i + 1 = j \<or> j + 1 = i then - 1 / (mesh_h ?N)\<^sup>2
                             else 0)"
    by (auto simp: ent)
  have first: "\<forall>j<?N. 1 \<le> j \<longrightarrow> ?A ! 0 ! j = 0 \<and> ?A ! j ! 0 = 0"
    using N by (auto simp: ent)
  have last: "\<forall>j<?N. j + 1 < ?N \<longrightarrow> ?A ! (?N - 1) ! j = 0 \<and> ?A ! j ! (?N - 1) = 0"
    using N by (auto simp: ent)
  have corner: "?A ! 0 ! 0 = 1 \<and> ?A ! (?N - 1) ! (?N - 1) = 1"
    using N by (simp add: ent)
  have f: "length (rhs ?N) = ?N \<and> rhs ?N ! 0 = 0 \<and> rhs ?N ! (?N - 1) = 0"
    using rhs_boundary [OF N1] by (simp add: length_rhs)
  have h: "mesh_h ?N = 1 / (real_of_int n - 1) \<and> 0 < mesh_h ?N"
    using assms by (simp add: mesh_h_def of_nat_diff)
  show ?thesis
    using a shape sym inner first last corner f h by blast
qed


theorem assemble_dirichlet_system_witness:
  "(2::int) \<le> 4
   \<and> assemble 4 =
        Inr ([[1, 0, 0, 0], [0, 18, - 9, 0], [0, - 9, 18, 0], [0, 0, 0, 1]],
             [0, 2 / 9, 2 / 9, 0])"
proof -
  have e: "assemble 4 =
        Inr ([[1, 0, 0, 0], [0, 18, - 9, 0], [0, - 9, 18, 0], [0, 0, 0, 1]],
             [0, 2 / 9, 2 / 9, 0])"
    by code_simp
  have "(2::int) \<le> 4" by simp
  from assemble_dirichlet_system [OF this]
  have "\<exists>A f. assemble 4 = Inr (A, f) \<and> length A = nat 4" by blast
  with e show ?thesis by simp
qed


subsection \<open>Dirichlet rows\<close>


lemma dot_zero_left: "(\<forall>j<length u. u ! j = 0) \<Longrightarrow> dot u v = 0"
proof (induction u arbitrary: v)
  case Nil
  show ?case by simp
next
  case (Cons a u)
  from Cons.prems have a: "a = 0" and u: "\<forall>j<length u. u ! j = 0" by auto
  show ?case
  proof (cases v)
    case Nil
    then show ?thesis by simp
  next
    case (Cons c v')
    with a Cons.IH [OF u, of v'] show ?thesis by (simp add: dot_def)
  qed
qed

lemma dot_zero_right: "dot u (replicate n 0) = 0"
proof (induction u arbitrary: n)
  case Nil
  show ?case by simp
next
  case (Cons a u)
  show ?case
  proof (cases n)
    case 0
    then show ?thesis by simp
  next
    case (Suc m)
    with Cons [of m] show ?thesis by (simp add: dot_def)
  qed
qed

lemma dot_slice_zero:
  assumes "\<forall>j. lo \<le> j \<and> j < hi \<longrightarrow> u ! j = 0" and "hi \<le> length u"
  shows "dot (slice u lo hi) (slice v lo hi) = 0"
proof (rule dot_zero_left, intro allI impI)
  fix j
  assume "j < length (slice u lo hi)"
  with assms show "slice u lo hi ! j = 0" by (simp add: slice_def)
qed

lemma jacobi_entry_unit_row:
  assumes "i < N" and "N \<le> length (A ! i)" and "b ! i = 0"
    and "\<forall>j<N. j \<noteq> i \<longrightarrow> A ! i ! j = 0"
  shows "jacobi_entry A b N xo i = 0"
proof -
  have "dot (slice (A ! i) 0 i) (slice xo 0 i) = 0"
    using assms by (intro dot_slice_zero) auto
  moreover have "dot (slice (A ! i) (i + 1) N) (slice xo (i + 1) N) = 0"
    using assms by (intro dot_slice_zero) auto
  ultimately show ?thesis using assms(3) by (simp add: jacobi_entry_def)
qed

lemma gauss_seidel_entry_unit_row:
  assumes "i < N" and "N \<le> length (A ! i)" and "b ! i = 0"
    and "\<forall>j<N. j \<noteq> i \<longrightarrow> A ! i ! j = 0"
  shows "gauss_seidel_entry A b N xo xc i = 0"
proof -
  have "dot (slice (A ! i) 0 i) (slice xc 0 i) = 0"
    using assms by (intro dot_slice_zero) auto
  moreover have "dot (slice (A ! i) (i + 1) N) (slice xo (i + 1) N) = 0"
    using assms by (intro dot_slice_zero) auto
  ultimately show ?thesis using assms(3) by (simp add: gauss_seidel_entry_def)
qed


lemma jacobi_state_dirichlet:
  assumes "dirichlet_row A b i"
  shows "v_x (jacobi_state A b eps k) ! i = 0"
proof (cases k)
  case 0
  with assms show ?thesis
    by (simp add: jacobi_state_x zeros_like_def dirichlet_row_def)
next
  case (Suc k')
  have "jacobi_entry A b (length A) (ones_like b) i = 0"
    using assms by (intro jacobi_entry_unit_row) (simp_all add: dirichlet_row_def)
  with assms Suc show ?thesis
    by (simp add: jacobi_state_x jacobi_sweep_eq zeros_like_def dirichlet_row_def)
qed

lemma gauss_seidel_state_dirichlet:
  assumes "dirichlet_row A b i"
  shows "v_x (gauss_seidel_state A b eps k) ! i = 0"
proof (cases k)
  case 0
  with assms show ?thesis
    by (simp add: gauss_seidel_state_0 gauss_seidel_init_def zeros_like_def
        dirichlet_row_def)
next
  case (Suc k')
  let ?xo = "v_x_old (gauss_seidel_state A b eps k')"
  let ?xc = "v_x (gauss_seidel_state A b eps k')"
  have i: "i < length A" "i < length ?xc"
    using assms by (simp_all add: dirichlet_row_def gauss_seidel_state_length)
  have "gauss_seidel_entry A b (length A) ?xo
          (gauss_seidel_sweep A b (length A) ?xo ?xc) i = 0"
    using assms by (intro gauss_seidel_entry_unit_row) (simp_all add: dirichlet_row_def)
  with gauss_seidel_sweep_nth [OF i, of A b ?xo] Suc show ?thesis
    by (simp add: gauss_seidel_state_x)
qed

lemma gauss_seidel_eq_state:
  "\<exists>K. gauss_seidel_run A b nmax eps = gauss_seidel_state A b eps K"
  using gauss_seidel_while_funpow [of A b nmax eps "length A" "gauss_seidel_init b eps"]
  unfolding gauss_seidel_run_def gauss_seidel_state_def by blast

lemma assemble_dirichlet_rows:
  assumes "2 \<le> n"
  shows "dirichlet_row (impose_bc_A (stiffness n)) (rhs n) 0"
    and "dirichlet_row (impose_bc_A (stiffness n)) (rhs n) (n - 1)"
proof -
  from assms have n1: "1 \<le> n" by simp
  have sq: "square (stiffness n) n" using n1 by (rule square_stiffness)
  then have sqA: "square (impose_bc_A (stiffness n)) n" by (rule square_impose_bc_A)
  then have len: "length (impose_bc_A (stiffness n)) = n"
    "length (impose_bc_A (stiffness n) ! 0) = n"
    "length (impose_bc_A (stiffness n) ! (n - 1)) = n"
    using assms by (simp_all add: square_def)
  show "dirichlet_row (impose_bc_A (stiffness n)) (rhs n) 0"
    using assms rhs_boundary [OF n1]
    by (simp add: dirichlet_row_def len length_rhs impose_bc_A_nth [OF sq])
  show "dirichlet_row (impose_bc_A (stiffness n)) (rhs n) (n - 1)"
    using assms rhs_boundary [OF n1] len
    by (simp add: dirichlet_row_def length_rhs impose_bc_A_nth [OF sq])
qed

text \<open>
  For \<^verbatim>\<open>jacobi\<close> and \<^verbatim>\<open>gauss_seidel\<close> on the assembled system, the entries \<open>0\<close> and
  \<open>n - 1\<close> of \<^verbatim>\<open>x\<close> are zero after any number of sweeps and in the returned vector.
\<close>

lemma dirichlet_values_jacobi_gauss_seidel:
  assumes "2 \<le> n" and "assemble n = Inr (A, f)"
  shows "v_x (jacobi_state A f eps k) ! 0 = 0 \<and> v_x (jacobi_state A f eps k) ! (nat n - 1) = 0
       \<and> jacobi A f nmax eps ! 0 = 0 \<and> jacobi A f nmax eps ! (nat n - 1) = 0
       \<and> v_x (gauss_seidel_state A f eps k) ! 0 = 0
       \<and> v_x (gauss_seidel_state A f eps k) ! (nat n - 1) = 0
       \<and> gauss_seidel A f nmax eps ! 0 = 0 \<and> gauss_seidel A f nmax eps ! (nat n - 1) = 0"
proof -
  from assms have A: "A = impose_bc_A (stiffness (nat n))" and f: "f = rhs (nat n)"
    by (simp_all add: assemble_def split: if_splits)
  from assms(1) have "2 \<le> nat n" by simp
  from assemble_dirichlet_rows [OF this]
  have d: "dirichlet_row A f 0" "dirichlet_row A f (nat n - 1)" by (simp_all add: A f)
  obtain K where K: "gauss_seidel_run A f nmax eps = gauss_seidel_state A f eps K"
    using gauss_seidel_eq_state by blast
  show ?thesis
    using jacobi_state_dirichlet [OF d(1)] jacobi_state_dirichlet [OF d(2)]
      gauss_seidel_state_dirichlet [OF d(1)] gauss_seidel_state_dirichlet [OF d(2)]
    by (simp add: jacobi_eq_state gauss_seidel_def K)
qed


text \<open>
  Claim C9. Every solver is to return a vector with the Dirichlet values \<open>x[0] = 0\<close> and
  \<open>x[N-1] = 0\<close> on the assembled system. The notebook's first call of the gradient
  method, \<^verbatim>\<open>gradient(A,f,identity(len(A)))\<close>, raises \<^verbatim>\<open>UnboundLocalError\<close>: there
  are no final locals and no vector.
\<close>

theorem gradient_has_no_dirichlet_values:
  "assemble 33 = Inr (impose_bc_A (stiffness 33), rhs 33)
   \<and> gradient_run solve_identity (impose_bc_A (stiffness 33)) (rhs 33)
         (identity (length (impose_bc_A (stiffness 33)))) 8000 (1 / 10 ^ 10)
       = Inl (UnboundLocalError ''x'')"
  by (simp add: assemble_def gradient_run_def gradient_from_def load_local_def)

subsection \<open>The stopping criterion on the system with 33 points\<close>

lemma gauss_seidel_run_stops:
  assumes "0 \<le> nmax" and "\<not> float_absorbs_one eps"
  shows "v_it (gauss_seidel_run A b nmax eps) = nmax
       \<or> norm2 (vsub b (matvec A (gauss_seidel A b nmax eps))) \<le> eps"
proof -
  from gauss_seidel_run_state [of A b nmax eps] assms obtain K where K:
    "gauss_seidel_run A b nmax eps = gauss_seidel_state A b eps K"
    "int K = nmax \<or> v_tol (gauss_seidel_state A b eps K) \<le> eps"
    by auto
  show ?thesis
  proof (cases "K = 0")
    case True
    with K assms(2) show ?thesis
      by (auto simp: gauss_seidel_state_tol gauss_seidel_state_it initial_tol_def)
  next
    case False
    with K show ?thesis
      by (auto simp: gauss_seidel_state_tol gauss_seidel_state_it gauss_seidel_def)
  qed
qed

lemma matvec_zeros: "matvec A (replicate n 0) = replicate (length A) 0"
  by (induction A) (simp_all add: matvec_def dot_zero_right)

lemma vsub_zeros: "length u \<le> n \<Longrightarrow> vsub u (replicate n 0) = u"
  by (rule nth_equalityI) (simp_all add: vsub_def)

lemma square_le_sum_squares:
  "i < length v \<Longrightarrow> v ! i * v ! i \<le> sum_list (map (\<lambda>c. c * c) (v::vec))"
proof (induction v arbitrary: i)
  case Nil
  then show ?case by simp
next
  case (Cons a v)
  have nn: "0 \<le> sum_list (map (\<lambda>c. c * c) v)"
    by (induction v) simp_all
  show ?case
  proof (cases i)
    case 0
    with nn show ?thesis by simp
  next
    case (Suc j)
    with Cons.prems have "j < length v" by simp
    from Cons.IH [OF this] have "v ! j * v ! j \<le> a * a + sum_list (map (\<lambda>c. c * c) v)"
      using zero_le_square [of a] by linarith
    with Suc show ?thesis by simp
  qed
qed

lemma abs_nth_le_norm2: "i < length v \<Longrightarrow> \<bar>v ! i\<bar> \<le> norm2 v"
proof -
  assume "i < length v"
  then have "sqrt (v ! i * v ! i) \<le> sqrt (sum_list (map (\<lambda>c. c * c) v))"
    by (intro real_sqrt_le_mono square_le_sum_squares)
  then show ?thesis by (simp add: norm2_def)
qed

text \<open>
  For \<^verbatim>\<open>jacobi\<close> and \<^verbatim>\<open>gauss_seidel\<close> called on the assembled system with 33
  points, a cap \<open>nmax \<ge> 0\<close> and a tolerance \<open>eps\<close> that does not absorb the \<open>1\<close> of
  \<^verbatim>\<open>tol=eps+1\<close>: the call returns a vector, and the number of iterations performed
  equals \<open>nmax\<close> or the residual norm of the returned vector is at most \<open>eps\<close>.
\<close>

lemma jacobi_gauss_seidel_stop_criterion:
  assumes "assemble 33 = Inr (A, f)" and "0 \<le> nmax" and "\<not> float_absorbs_one eps"
  shows "(v_it (jacobi_run A f nmax eps) = nmax
            \<or> norm2 (vsub f (matvec A (jacobi A f nmax eps))) \<le> eps)
       \<and> (v_it (gauss_seidel_run A f nmax eps) = nmax
            \<or> norm2 (vsub f (matvec A (gauss_seidel A f nmax eps))) \<le> eps)"
  using assms(2,3) by (simp add: jacobi_run_it gauss_seidel_run_stops)

text \<open>
  Claim C1. Every solver, called on the assembled system with 33 points, is to return a
  vector whose residual norm is at most \<open>eps\<close>, or to have performed \<open>nmax\<close> iterations.
  The notebook's call \<^verbatim>\<open>gradient(A,f,identity(len(A)))\<close>, with the defaults
  \<^verbatim>\<open>nmax=8000\<close> and \<^verbatim>\<open>eps=1e-10\<close>, raises \<^verbatim>\<open>UnboundLocalError\<close> before its loop:
  it returns no vector, and there are no final locals with an iteration count or a
  residual.
\<close>

theorem gradient_meets_no_stop_criterion:
  "assemble 33 = Inr (impose_bc_A (stiffness 33), rhs 33)
   \<and> gradient solve_identity (impose_bc_A (stiffness 33)) (rhs 33) (identity 33) 8000
        (1 / 10 ^ 10) = Inl (UnboundLocalError ''x'')
   \<and> (\<forall>s. gradient_run solve_identity (impose_bc_A (stiffness 33)) (rhs 33) (identity 33)
            8000 (1 / 10 ^ 10) \<noteq> Inr s)"
  by (simp add: assemble_def gradient_def gradient_run_def gradient_from_def load_local_def)

subsection \<open>The result of \<^verbatim>\<open>jacobi\<close> on the system with 33 points\<close>


lemma assembled_nth:
  assumes "2 \<le> n" and "k < n" and "l < n"
  shows "impose_bc_A (stiffness n) ! k ! l =
      (if k = 0 \<or> k = n - 1 \<or> l = 0 \<or> l = n - 1 then (if k = l then 1 else 0)
       else (if k = l then 2 else if k + 1 = l \<or> l + 1 = k then - 1 else 0)
              / (mesh_h n)\<^sup>2)"
proof -
  from assms(1) have n1: "1 \<le> n" by simp
  have sq: "square (stiffness n) n" using n1 by (rule square_stiffness)
  show ?thesis
    using assms(2,3) by (simp add: impose_bc_A_nth [OF sq] stiffness_nth [OF n1])
qed

lemma dot_sum:
  "length u = n \<Longrightarrow> length v = n \<Longrightarrow> dot u v = (\<Sum>j<n. u ! j * v ! j)"
  using dot_take [of n u v] by simp

lemma sum_three:
  fixes u :: "nat \<Rightarrow> real"
  assumes "\<forall>j<n. j \<noteq> i - 1 \<and> j \<noteq> i \<and> j \<noteq> i + 1 \<longrightarrow> u j = 0"
    and "1 \<le> i" and "i + 1 < n"
  shows "(\<Sum>j<n. u j) = u (i - 1) + u i + u (i + 1)"
proof -
  have "(\<Sum>j<n. u j) = (\<Sum>j\<in>{i - 1, i, i + 1}. u j)"
    using assms by (intro sum.mono_neutral_right) auto
  also have "\<dots> = u (i - 1) + u i + u (i + 1)"
    using assms(2) by (cases i) simp_all
  finally show ?thesis .
qed

text \<open>Row \<open>i\<close> of the assembled matrix times a vector, for an interior row.\<close>

lemma assembled_row_sum:
  fixes g :: "nat \<Rightarrow> real"
  assumes "2 \<le> n" and "1 \<le> i" and "i + 1 < n"
  shows "(\<Sum>j<n. impose_bc_A (stiffness n) ! i ! j * g j) =
           (2 * g i - (if i = 1 then 0 else g (i - 1)) - (if i + 2 = n then 0 else g (i + 1)))
             / (mesh_h n)\<^sup>2"
proof -
  let ?A = "impose_bc_A (stiffness n)"
  have z: "\<forall>j<n. j \<noteq> i - 1 \<and> j \<noteq> i \<and> j \<noteq> i + 1 \<longrightarrow> ?A ! i ! j * g j = 0"
    using assms by (auto simp: assembled_nth)
  have "(\<Sum>j<n. ?A ! i ! j * g j) =
        ?A ! i ! (i - 1) * g (i - 1) + ?A ! i ! i * g i + ?A ! i ! (i + 1) * g (i + 1)"
    using z assms(2,3) by (rule sum_three)
  also have "\<dots> = (2 * g i - (if i = 1 then 0 else g (i - 1))
                      - (if i + 2 = n then 0 else g (i + 1))) / (mesh_h n)\<^sup>2"
    using assms by (auto simp: assembled_nth field_simps)
  finally show ?thesis .
qed

lemma mesh_h_33: "(mesh_h 33)\<^sup>2 = 1 / 1024"
  by (simp add: mesh_h_def power2_eq_square)

lemma jacobi_x_33:
  assumes "1 \<le> i" and "i + 1 < 33"
  shows "jacobi_sweep (impose_bc_A (stiffness 33)) (rhs 33) 33 (ones_like (rhs 33))
           (zeros_like (rhs 33)) ! i =
         (rhs 33 ! i + 1024 * ((if i = 1 then 0 else 1) + (if i = 31 then 0 else 1))) / 2048"
proof -
  let ?A = "impose_bc_A (stiffness 33)"
  have sq: "square ?A 33" by (intro square_impose_bc_A square_stiffness) simp
  then have len: "length (?A ! i) = 33" using assms by (simp add: square_def)
  have one: "ones_like (rhs 33) ! j = 1" if "j < 33" for j
    using that by (simp add: ones_like_def length_rhs)
  have "(\<Sum>j<33. ?A ! i ! j * ones_like (rhs 33) ! j) = (\<Sum>j<33. ?A ! i ! j * 1)"
    by (intro sum.cong) (simp_all add: one)
  also have "\<dots> = (2 * 1 - (if i = 1 then 0 else 1) - (if i + 2 = 33 then 0 else 1))
                    / (mesh_h 33)\<^sup>2"
    using assms by (intro assembled_row_sum) simp_all
  also have "\<dots> = 1024 * (2 - (if i = 1 then 0 else 1) - (if i = 31 then 0 else 1))"
    by (simp add: mesh_h_33)
  finally have s: "(\<Sum>j<33. ?A ! i ! j * ones_like (rhs 33) ! j) =
      1024 * (2 - (if i = 1 then 0 else 1) - (if i = 31 then 0 else 1))" .
  have d: "?A ! i ! i = 2048"
    using assms by (simp add: assembled_nth mesh_h_33)
  have o: "ones_like (rhs 33) ! i = 1"
    using assms by (simp add: one)
  have "jacobi_entry ?A (rhs 33) 33 (ones_like (rhs 33)) i =
          (rhs 33 ! i - ((\<Sum>j<33. ?A ! i ! j * ones_like (rhs 33) ! j)
              - ?A ! i ! i * ones_like (rhs 33) ! i)) / ?A ! i ! i"
    using assms len by (intro jacobi_entry_sum) (simp_all add: ones_like_def length_rhs)
  also have "\<dots> = (rhs 33 ! i - (1024 * (2 - (if i = 1 then 0 else 1)
                       - (if i = 31 then 0 else 1)) - 2048 * 1)) / 2048"
    unfolding s d o ..
  also have "\<dots> = (rhs 33 ! i + 1024 * ((if i = 1 then 0 else 1) + (if i = 31 then 0 else 1)))
                     / 2048"
    by simp
  finally show ?thesis
    using assms by (simp add: jacobi_sweep_eq zeros_like_def length_rhs)
qed

text \<open>
  Claim C7. On the system with 33 points and the default cap and tolerance,
  \<^verbatim>\<open>gauss_seidel\<close> is to reach the tolerance in fewer iterations than \<^verbatim>\<open>jacobi\<close>
  does. The call \<^verbatim>\<open>jacobi(A,f)\<close> performs all 10000 iterations and ends with a residual
  norm of at least 511 (the third entry of the residual alone is \<open>-512 + 59/1024\<close>), and
  so does the iterate after any number of sweeps: \<^verbatim>\<open>jacobi\<close> does not reach the
  tolerance.
\<close>

theorem jacobi_never_reaches_tolerance:
  "assemble 33 = Inr (impose_bc_A (stiffness 33), rhs 33)
   \<and> v_it (jacobi_run (impose_bc_A (stiffness 33)) (rhs 33) 10000 (1 / 10 ^ 10)) = 10000
   \<and> 511 \<le> v_tol (jacobi_run (impose_bc_A (stiffness 33)) (rhs 33) 10000 (1 / 10 ^ 10))
   \<and> 511 \<le> norm2 (vsub (rhs 33) (matvec (impose_bc_A (stiffness 33))
         (v_x (jacobi_state (impose_bc_A (stiffness 33)) (rhs 33) (1 / 10 ^ 10) (Suc k)))))"
proof -
  let ?A = "impose_bc_A (stiffness 33)"
  let ?f = "rhs 33"
  let ?x = "jacobi_sweep ?A ?f 33 (ones_like ?f) (zeros_like ?f)"
  have a: "assemble 33 = Inr (?A, ?f)" by (simp add: assemble_def)
  have sq: "square ?A 33" by (intro square_impose_bc_A square_stiffness) simp
  then have len: "length ?A = 33" "length (?A ! 2) = 33" by (simp_all add: square_def)
  have lx: "length ?x = 33" by (simp add: zeros_like_def length_rhs)
  have x: "jacobi ?A ?f 10000 eps = ?x" if "\<not> float_absorbs_one eps" for eps
    using that by (simp add: jacobi_eq_state jacobi_state_x len)
  have tol: "v_tol (jacobi_run ?A ?f 10000 eps) = norm2 (vsub ?f (matvec ?A ?x))"
    if "\<not> float_absorbs_one eps" for eps
    using x [OF that] by (simp add: jacobi_run_def jacobi_def Let_def)
  have na: "\<not> float_absorbs_one (1 / 10 ^ 10)"
    by (rule float_absorbs_one_small) simp
  have f: "?f ! 1 = 31 / 1024" "?f ! 2 = 60 / 1024" "?f ! 3 = 87 / 1024"
    by (simp_all add: rhs_interior)
  have xs: "?x ! 1 = (31 / 1024 + 1024) / 2048" "?x ! 2 = (60 / 1024 + 2048) / 2048"
    "?x ! 3 = (87 / 1024 + 2048) / 2048"
    using f by (simp_all add: jacobi_x_33)
  have "dot (?A ! 2) ?x = (\<Sum>j<33. ?A ! 2 ! j * ?x ! j)"
    using len(2) lx by (rule dot_sum)
  also have "\<dots> = (2 * ?x ! 2 - (if (2::nat) = 1 then 0 else ?x ! (2 - 1))
                      - (if (2::nat) + 2 = 33 then 0 else ?x ! (2 + 1))) / (mesh_h 33)\<^sup>2"
    by (intro assembled_row_sum) simp_all
  also have "\<dots> = 512 + 1 / 1024"
    using xs by (simp add: mesh_h_33 numeral_3_eq_3)
  finally have d: "dot (?A ! 2) ?x = 512 + 1 / 1024" .
  have "vsub ?f (matvec ?A ?x) ! 2 = ?f ! 2 - dot (?A ! 2) ?x"
    by (simp add: vsub_def matvec_def len length_rhs)
  then have r: "vsub ?f (matvec ?A ?x) ! 2 = - 512 + 59 / 1024"
    by (simp add: d f)
  have "\<bar>vsub ?f (matvec ?A ?x) ! 2\<bar> \<le> norm2 (vsub ?f (matvec ?A ?x))"
    by (rule abs_nth_le_norm2) (simp add: vsub_def matvec_def len length_rhs)
  with r have "511 \<le> norm2 (vsub ?f (matvec ?A ?x))" by simp
  moreover have "v_x (jacobi_state ?A ?f eps (Suc k)) = ?x" for eps
    by (simp add: jacobi_state_x len)
  ultimately show ?thesis
    using a na by (simp add: tol jacobi_run_it)
qed


subsection \<open>Convergence of \<^verbatim>\<open>gauss_seidel\<close> on the system with 33 points\<close>

text \<open>
  The step between two iterates obeys the homogeneous sweep. A sweep lowers the energy of
  the step by twice its squared change; with a discrete Poincare inequality this makes
  the energy shrink by the factor \<open>128/129\<close> per sweep, and the residual after a sweep is
  \<open>1024\<close> times the shifted step.
\<close>



lemma energy_nonneg: "0 \<le> energy m v"
  by (simp add: energy_def sum_nonneg)

text \<open>One homogeneous Gauss-Seidel sweep \<open>p \<rightarrow> q\<close> lowers the energy by twice the squared step.\<close>

lemma sweep_energy_partial:
  fixes p q :: "nat \<Rightarrow> real"
  assumes "p 0 = 0" and "q 0 = 0"
    and "\<forall>i<m. 2 * q (Suc i) = q i + p (Suc (Suc i))"
  shows "(\<Sum>i<m. 2 * (q (Suc i) - p (Suc i))\<^sup>2) =
           (\<Sum>j<m. (p (Suc j) - p j)\<^sup>2 - (q (Suc j) - q j)\<^sup>2)
           + ((p (Suc m) - p m)\<^sup>2 - (p (Suc m) - q m)\<^sup>2)"
  using assms(3)
proof (induction m)
  case 0
  show ?case using assms(1,2) by simp
next
  case (Suc m)
  from Suc.prems have r: "p (Suc (Suc m)) = 2 * q (Suc m) - q m" 
    and prev: "\<forall>i<m. 2 * q (Suc i) = q i + p (Suc (Suc i))"
    by (simp_all add: less_Suc_eq algebra_simps)
  note IH = Suc.IH [OF prev]
  have "(\<Sum>i<Suc m. 2 * (q (Suc i) - p (Suc i))\<^sup>2) =
        (\<Sum>j<m. (p (Suc j) - p j)\<^sup>2 - (q (Suc j) - q j)\<^sup>2)
           + ((p (Suc m) - p m)\<^sup>2 - (p (Suc m) - q m)\<^sup>2)
           + 2 * (q (Suc m) - p (Suc m))\<^sup>2"
    by (simp add: IH)
  also have "\<dots> = (\<Sum>j<Suc m. (p (Suc j) - p j)\<^sup>2 - (q (Suc j) - q j)\<^sup>2)
           + ((p (Suc (Suc m)) - p (Suc m))\<^sup>2 - (p (Suc (Suc m)) - q (Suc m))\<^sup>2)"
    by (simp add: r power2_eq_square algebra_simps)
  finally show ?case .
qed

lemma sweep_energy:
  fixes p q :: "nat \<Rightarrow> real"
  assumes "p 0 = 0" and "q 0 = 0" and "p (Suc m) = 0" and "q (Suc m) = 0"
    and "\<forall>i<m. 2 * q (Suc i) = q i + p (Suc (Suc i))"
  shows "energy (Suc m) p - energy (Suc m) q = 2 * (\<Sum>i<m. (q (Suc i) - p (Suc i))\<^sup>2)"
proof -
  have "2 * (\<Sum>i<m. (q (Suc i) - p (Suc i))\<^sup>2) = (\<Sum>i<m. 2 * (q (Suc i) - p (Suc i))\<^sup>2)"
    by (simp add: sum_distrib_left)
  also have "\<dots> = (\<Sum>j<m. (p (Suc j) - p j)\<^sup>2 - (q (Suc j) - q j)\<^sup>2)
           + ((p (Suc m) - p m)\<^sup>2 - (p (Suc m) - q m)\<^sup>2)"
    using assms(1,2,5) by (rule sweep_energy_partial)
  also have "\<dots> = (\<Sum>j<Suc m. (p (Suc j) - p j)\<^sup>2 - (q (Suc j) - q j)\<^sup>2)"
    using assms(3,4) by simp
  also have "\<dots> = energy (Suc m) p - energy (Suc m) q"
    by (simp only: energy_def sum_subtractf)
  finally show ?thesis by simp
qed

text \<open>Summation by parts.\<close>

lemma energy_by_parts:
  fixes q :: "nat \<Rightarrow> real"
  assumes "q 0 = 0"
  shows "energy (Suc m) q =
           (\<Sum>i<m. q (Suc i) * (2 * q (Suc i) - q i - q (Suc (Suc i))))
           + q (Suc m) * (q (Suc m) - q m)"
proof (induction m)
  case 0
  show ?case using assms by (simp add: energy_def power2_eq_square)
next
  case (Suc m)
  have "energy (Suc (Suc m)) q = energy (Suc m) q + (q (Suc (Suc m)) - q (Suc m))\<^sup>2"
    by (simp add: energy_def)
  also have "\<dots> = (\<Sum>i<Suc m. q (Suc i) * (2 * q (Suc i) - q i - q (Suc (Suc i))))
           + q (Suc (Suc m)) * (q (Suc (Suc m)) - q (Suc m))"
    by (simp add: Suc power2_eq_square algebra_simps)
  finally show ?case .
qed


text \<open>A discrete Poincare inequality on 32 intervals.\<close>

lemma energy_mono: "k \<le> m \<Longrightarrow> energy k v \<le> energy m v"
  unfolding energy_def by (intro sum_mono2) auto

lemma square_le_energy_left:
  fixes v :: "nat \<Rightarrow> real"
  assumes "v 0 = 0"
  shows "(v i)\<^sup>2 \<le> real i * energy i v"
proof (induction i)
  case 0
  show ?case using assms by simp
next
  case (Suc i)
  define d where "d = v (Suc i) - v i"
  define T where "T = energy i v"
  have T: "0 \<le> T" by (simp add: T_def energy_nonneg)
  have IH: "(v i)\<^sup>2 \<le> real i * T" using Suc by (simp add: T_def)
  have E: "energy (Suc i) v = T + d\<^sup>2" by (simp add: energy_def T_def d_def)
  have cross: "2 * v i * d \<le> T + real i * d\<^sup>2"
  proof (cases "i = 0")
    case True
    with assms T show ?thesis by simp
  next
    case False
    then have i: "0 < real i" by simp
    have "0 \<le> (v i - real i * d)\<^sup>2" by simp
    then have "2 * real i * v i * d \<le> (v i)\<^sup>2 + (real i)\<^sup>2 * d\<^sup>2"
      by (simp add: power2_eq_square algebra_simps)
    also have "\<dots> \<le> real i * T + (real i)\<^sup>2 * d\<^sup>2" using IH by simp
    finally have "real i * (2 * v i * d) \<le> real i * (T + real i * d\<^sup>2)"
      by (simp add: power2_eq_square algebra_simps)
    with i show ?thesis by (simp only: mult_le_cancel_left_pos)
  qed
  have "(v (Suc i))\<^sup>2 = (v i)\<^sup>2 + 2 * v i * d + d\<^sup>2"
    by (simp add: d_def power2_eq_square algebra_simps)
  also have "\<dots> \<le> real i * T + (T + real i * d\<^sup>2) + d\<^sup>2"
    using IH cross by simp
  also have "\<dots> = real (Suc i) * (T + d\<^sup>2)"
    by (simp add: algebra_simps)
  finally show ?case by (simp only: E)
qed

lemma square_le_energy_right:
  fixes v :: "nat \<Rightarrow> real"
  assumes "v m = 0" and "i \<le> m"
  shows "(v i)\<^sup>2 \<le> real (m - i) * energy m v"
proof -
  define w where "w j = v (m - j)" for j
  define k where "k = m - i"
  have k: "k \<le> m" by (simp add: k_def)
  have w0: "w 0 = 0" using assms(1) by (simp add: w_def)
  have "energy k w = (\<Sum>j<k. (v (Suc (m - Suc j)) - v (m - Suc j))\<^sup>2)"
    unfolding energy_def
  proof (rule sum.cong)
    fix j assume "j \<in> {..<k}"
    with k have "Suc (m - Suc j) = m - j" by auto
    then show "(w (Suc j) - w j)\<^sup>2 = (v (Suc (m - Suc j)) - v (m - Suc j))\<^sup>2"
      by (simp add: w_def power2_commute)
  qed simp
  also have "\<dots> = (\<Sum>l\<in>(\<lambda>j. m - Suc j) ` {..<k}. (v (Suc l) - v l)\<^sup>2)"
  proof -
    have "inj_on (\<lambda>j. m - Suc j) {..<k}"
      using k by (auto simp: inj_on_def)
    then show ?thesis by (simp add: sum.reindex)
  qed
  also have "\<dots> \<le> energy m v"
    unfolding energy_def using k by (intro sum_mono2) auto
  finally have e: "energy k w \<le> energy m v" .
  have "(w k)\<^sup>2 \<le> real k * energy k w"
    using w0 by (rule square_le_energy_left)
  also have "\<dots> \<le> real k * energy m v"
    using e by (simp add: mult_left_mono)
  finally show ?thesis using assms(2) by (simp add: w_def k_def)
qed

lemma poincare_32:
  fixes v :: "nat \<Rightarrow> real"
  assumes "v 0 = 0" and "v 32 = 0"
  shows "(\<Sum>i<31. (v (Suc i))\<^sup>2) \<le> 256 * energy 32 v"
proof -
  have each: "(v (Suc i))\<^sup>2 \<le> real (min (Suc i) (31 - i)) * energy 32 v" if "i < 31" for i
  proof (cases "Suc i \<le> 31 - i")
    case True
    have "(v (Suc i))\<^sup>2 \<le> real (Suc i) * energy (Suc i) v"
      using assms(1) by (rule square_le_energy_left)
    also have "\<dots> \<le> real (Suc i) * energy 32 v"
      using that by (intro mult_left_mono energy_mono) simp_all
    finally show ?thesis using True by (simp add: min_def)
  next
    case False
    have "(v (Suc i))\<^sup>2 \<le> real (32 - Suc i) * energy 32 v"
      using assms(2) that by (intro square_le_energy_right) simp_all
    with False show ?thesis by (simp add: min_def)
  qed
  have "(\<Sum>i<31. (v (Suc i))\<^sup>2) \<le> (\<Sum>i<31. real (min (Suc i) (31 - i)) * energy 32 v)"
    by (intro sum_mono each) simp
  also have "\<dots> = real (\<Sum>i<31. min (Suc i) (31 - i)) * energy 32 v"
    by (simp add: sum_distrib_right)
  also have "(\<Sum>i<31. min (Suc i) (31 - i)) = (256::nat)"
    by code_simp
  finally show ?thesis by simp
qed


text \<open>A homogeneous sweep contracts the energy by the factor \<open>128/129\<close>.\<close>

lemma sweep_contracts:
  fixes p q :: "nat \<Rightarrow> real"
  assumes "p 0 = 0" and "q 0 = 0" and "p 32 = 0" and "q 32 = 0"
    and rec: "\<forall>i<31. 2 * q (Suc i) = q i + p (Suc (Suc i))"
  shows "129 * energy 32 q \<le> 128 * energy 32 p"
proof -
  define s where "s i = q i - p i" for i
  define S2 where "S2 = (\<Sum>i<31. (s (Suc i))\<^sup>2)"
  have s32: "s 32 = 0" using assms(3,4) by (simp add: s_def)
  have drop: "energy 32 p - energy 32 q = 2 * S2"
    using sweep_energy [of p q 31] assms by (simp add: S2_def s_def)
  have "energy 32 q =
      (\<Sum>i<31. q (Suc i) * (2 * q (Suc i) - q i - q (Suc (Suc i)))) + q 32 * (q 32 - q 31)"
    using energy_by_parts [of q 31] assms(2) by simp
  also have "\<dots> = (\<Sum>i<31. - (q (Suc i) * s (Suc (Suc i))))"
    using rec assms(4) by (simp add: s_def algebra_simps)
  also have "\<dots> \<le> (\<Sum>i<31. (q (Suc i))\<^sup>2 / 512 + 128 * (s (Suc (Suc i)))\<^sup>2)"
  proof (rule sum_mono)
    fix i
    have "0 \<le> (q (Suc i) / 16 + 16 * s (Suc (Suc i)))\<^sup>2" by simp
    then show "- (q (Suc i) * s (Suc (Suc i)))
                 \<le> (q (Suc i))\<^sup>2 / 512 + 128 * (s (Suc (Suc i)))\<^sup>2"
      by (simp add: power2_eq_square algebra_simps)
  qed
  also have "\<dots> = (\<Sum>i<31. (q (Suc i))\<^sup>2) / 512 + 128 * (\<Sum>i<31. (s (Suc (Suc i)))\<^sup>2)"
    by (simp add: sum.distrib sum_divide_distrib sum_distrib_left)
  finally have 1: "energy 32 q
      \<le> (\<Sum>i<31. (q (Suc i))\<^sup>2) / 512 + 128 * (\<Sum>i<31. (s (Suc (Suc i)))\<^sup>2)" .
  have 2: "(\<Sum>i<31. (q (Suc i))\<^sup>2) \<le> 256 * energy 32 q"
    using assms(2,4) by (rule poincare_32)
  have "(\<Sum>i<32. (s (Suc i))\<^sup>2) = (s (Suc 0))\<^sup>2 + (\<Sum>i<31. (s (Suc (Suc i)))\<^sup>2)"
    using sum.lessThan_Suc_shift [of "\<lambda>i. (s (Suc i))\<^sup>2" 31] by simp
  moreover have "(\<Sum>i<32. (s (Suc i))\<^sup>2) = S2 + (s 32)\<^sup>2"
    using sum.lessThan_Suc [of "\<lambda>i. (s (Suc i))\<^sup>2" 31] by (simp add: S2_def)
  ultimately have 3: "(\<Sum>i<31. (s (Suc (Suc i)))\<^sup>2) \<le> S2"
    using s32 by simp
  from 1 2 3 have "energy 32 q \<le> energy 32 q / 2 + 128 * S2" by simp
  with drop show ?thesis by simp
qed

lemma sweeps_contract:
  fixes D :: "nat \<Rightarrow> nat \<Rightarrow> real"
  assumes "\<forall>k. D k 0 = 0" and "\<forall>k. D k 32 = 0"
    and "\<forall>k. \<forall>i<31. 2 * D (Suc k) (Suc i) = D (Suc k) i + D k (Suc (Suc i))"
  shows "energy 32 (D k) \<le> (128 / 129) ^ k * energy 32 (D 0)"
proof (induction k)
  case 0
  show ?case by simp
next
  case (Suc k)
  have "129 * energy 32 (D (Suc k)) \<le> 128 * energy 32 (D k)"
    using assms by (intro sweep_contracts) simp_all
  then have "energy 32 (D (Suc k)) \<le> 128 / 129 * energy 32 (D k)" by simp
  also have "\<dots> \<le> 128 / 129 * ((128 / 129) ^ k * energy 32 (D 0))"
    using Suc by (intro mult_left_mono) simp_all
  finally show ?case by simp
qed

lemma decay_bound: "(10::real) ^ 33 \<le> (129 / 128) ^ 9984"
proof -
  have "(27 / 10 :: real) \<le> (129 / 128) ^ 128"
    by (simp add: power_divide)
  then have "(27 / 10 :: real) ^ 78 \<le> ((129 / 128) ^ 128) ^ 78"
    by (intro power_mono) simp_all
  moreover have "(10::real) ^ 33 \<le> (27 / 10) ^ 78"
    by (simp add: power_divide)
  ultimately show ?thesis by (simp add: power_mult [symmetric])
qed


lemma gauss_seidel_sweep_dirichlet:
  assumes "dirichlet_row A b i" and "i < length xc"
  shows "gauss_seidel_sweep A b (length A) xo xc ! i = 0"
proof -
  have i: "i < length A" using assms(1) by (simp add: dirichlet_row_def)
  have "gauss_seidel_entry A b (length A) xo
          (gauss_seidel_sweep A b (length A) xo xc) i = 0"
    using assms(1) by (intro gauss_seidel_entry_unit_row) (simp_all add: dirichlet_row_def)
  with gauss_seidel_sweep_nth [OF i assms(2), of A b xo] show ?thesis by simp
qed

lemma assembled_row_sum_left:
  fixes g :: "nat \<Rightarrow> real"
  assumes "i + 2 < n"
  shows "(\<Sum>j<Suc i. impose_bc_A (stiffness n) ! Suc i ! j * g j) =
           - (if i = 0 then 0 else g i) / (mesh_h n)\<^sup>2"
proof -
  let ?A = "impose_bc_A (stiffness n)"
  from assms have n: "2 \<le> n" by simp
  have "(\<Sum>j<i. ?A ! Suc i ! j * g j) = 0"
    using assms by (intro sum.neutral) (auto simp: assembled_nth [OF n])
  moreover have "?A ! Suc i ! i * g i = - (if i = 0 then 0 else g i) / (mesh_h n)\<^sup>2"
    using assms by (auto simp: assembled_nth [OF n])
  ultimately show ?thesis by simp
qed

lemma assembled_row_sum_right:
  fixes g :: "nat \<Rightarrow> real"
  assumes "i + 2 < n"
  shows "(\<Sum>j = Suc (Suc i)..<n. impose_bc_A (stiffness n) ! Suc i ! j * g j) =
           - (if i + 3 = n then 0 else g (Suc (Suc i))) / (mesh_h n)\<^sup>2"
proof -
  let ?A = "impose_bc_A (stiffness n)"
  from assms have n: "2 \<le> n" by simp
  have "(\<Sum>j = Suc (Suc (Suc i))..<n. ?A ! Suc i ! j * g j) = 0"
    using assms by (intro sum.neutral) (auto simp: assembled_nth [OF n])
  moreover have "?A ! Suc i ! Suc (Suc i) * g (Suc (Suc i)) =
      - (if i + 3 = n then 0 else g (Suc (Suc i))) / (mesh_h n)\<^sup>2"
    using assms by (auto simp: assembled_nth [OF n])
  moreover have "(\<Sum>j = Suc (Suc i)..<n. ?A ! Suc i ! j * g j) =
      ?A ! Suc i ! Suc (Suc i) * g (Suc (Suc i))
      + (\<Sum>j = Suc (Suc (Suc i))..<n. ?A ! Suc i ! j * g j)"
    using assms by (intro sum.atLeast_Suc_lessThan) simp
  ultimately show ?thesis by simp
qed

text \<open>One Gauss-Seidel sweep on the system with 33 points, entry by entry.\<close>

lemma gauss_seidel_sweep_33:
  assumes "length xo = 33" and "length xc = 33" and "i < 31"
  shows "2048 * gauss_seidel_sweep (impose_bc_A (stiffness 33)) (rhs 33) 33 xo xc ! Suc i =
           rhs 33 ! Suc i
           + 1024 * gauss_seidel_sweep (impose_bc_A (stiffness 33)) (rhs 33) 33 xo xc ! i
           + 1024 * (if i = 30 then 0 else xo ! Suc (Suc i))"
proof -
  let ?A = "impose_bc_A (stiffness 33)"
  let ?f = "rhs 33"
  let ?x = "gauss_seidel_sweep ?A ?f 33 xo xc"
  have sq: "square ?A 33" by (intro square_impose_bc_A square_stiffness) simp
  then have len: "length ?A = 33" "length (?A ! Suc i) = 33"
    using assms(3) by (simp_all add: square_def)
  have d: "dirichlet_row ?A ?f 0" by (rule assemble_dirichlet_rows) simp
  have x0: "?x ! 0 = 0"
    using gauss_seidel_sweep_dirichlet [OF d, of xc xo] assms(2) by (simp add: len)
  have diag: "?A ! Suc i ! Suc i = 2048"
    using assms(3) by (simp add: assembled_nth mesh_h_33)
  have "?x ! Suc i = gauss_seidel_entry ?A ?f 33 xo ?x (Suc i)"
    using assms by (intro gauss_seidel_sweep_nth) simp_all
  also have "\<dots> = (?f ! Suc i - (\<Sum>j<Suc i. ?A ! Suc i ! j * ?x ! j)
                       - (\<Sum>j = Suc i + 1..<33. ?A ! Suc i ! j * xo ! j)) / ?A ! Suc i ! Suc i"
    using assms len by (intro gauss_seidel_entry_sum) simp_all
  also have "(\<Sum>j<Suc i. ?A ! Suc i ! j * ?x ! j) = - 1024 * ?x ! i"
    using assms(3) x0 by (subst assembled_row_sum_left) (simp_all add: mesh_h_33)
  also have "(\<Sum>j = Suc i + 1..<33. ?A ! Suc i ! j * xo ! j) =
             - 1024 * (if i = 30 then 0 else xo ! Suc (Suc i))"
    using assms(3) assembled_row_sum_right [of i 33 "\<lambda>j. xo ! j"]
    by (simp add: mesh_h_33)
  finally show ?thesis by (simp add: diag)
qed


lemma rhs_33_bounds:
  assumes "i < 31"
  shows "0 \<le> rhs 33 ! Suc i" and "rhs 33 ! Suc i \<le> 1 / 4"
proof -
  define t where "t = real (Suc i) / 32"
  have f: "rhs 33 ! Suc i = t * (1 - t)"
    using assms by (simp add: rhs_interior t_def)
  have t: "0 \<le> t" "t \<le> 1" using assms by (simp_all add: t_def)
  then show "0 \<le> rhs 33 ! Suc i" by (simp add: f)
  have "0 \<le> (t - 1 / 2)\<^sup>2" by simp
  then show "rhs 33 ! Suc i \<le> 1 / 4"
    by (simp add: f power2_eq_square algebra_simps)
qed

lemma gauss_seidel_sweep_33_bounds:
  assumes "length xo = 33" and "length xc = 33" and "1 \<le> M"
    and "\<forall>j<33. 0 \<le> xo ! j \<and> xo ! j \<le> M"
    and "i < 33"
  shows "0 \<le> gauss_seidel_sweep (impose_bc_A (stiffness 33)) (rhs 33) 33 xo xc ! i
       \<and> gauss_seidel_sweep (impose_bc_A (stiffness 33)) (rhs 33) 33 xo xc ! i \<le> M + 1"
proof -
  let ?A = "impose_bc_A (stiffness 33)"
  let ?x = "gauss_seidel_sweep ?A (rhs 33) 33 xo xc"
  have sq: "square ?A 33" by (intro square_impose_bc_A square_stiffness) simp
  then have len: "length ?A = 33" by (simp add: square_def)
  have d: "dirichlet_row ?A (rhs 33) 0" "dirichlet_row ?A (rhs 33) (33 - 1)"
    by (rule assemble_dirichlet_rows, simp)+
  have x0: "?x ! 0 = 0"
    using gauss_seidel_sweep_dirichlet [OF d(1), of xc xo] assms(2) by (simp add: len)
  have x32: "?x ! 32 = 0"
    using gauss_seidel_sweep_dirichlet [OF d(2), of xc xo] assms(2) by (simp add: len)
  have inner: "i \<le> 31 \<Longrightarrow> 0 \<le> ?x ! i \<and> ?x ! i \<le> M + 1" for i
  proof (induction i)
    case 0
    with assms(3) show ?case by (simp add: x0)
  next
    case (Suc i)
    then have i: "i < 31" and IH: "0 \<le> ?x ! i" "?x ! i \<le> M + 1" by simp_all
    define y where "y = (if i = 30 then 0 else xo ! Suc (Suc i))"
    have y: "0 \<le> y" "y \<le> M"
      using assms(3,4) i by (auto simp: y_def)
    have "2048 * ?x ! Suc i = rhs 33 ! Suc i + 1024 * ?x ! i + 1024 * y"
      unfolding y_def using assms(1,2) i by (rule gauss_seidel_sweep_33)
    with rhs_33_bounds [OF i] IH y show ?case by simp
  qed
  show ?thesis
  proof (cases "i = 32")
    case True
    with assms(3) show ?thesis by (simp add: x32)
  next
    case False
    with assms(5) have "i \<le> 31" by simp
    then show ?thesis by (rule inner)
  qed
qed

lemma sum_list_map_nth:
  fixes g :: "real \<Rightarrow> real"
  shows "sum_list (map g v) = (\<Sum>i<length v. g (v ! i))"
  using sum_list_sum_nth [of "map g v"] by (simp add: lessThan_atLeast0)

text \<open>The squared residual norm on the system with 33 points.\<close>

lemma residual_33:
  assumes "length x = 33" and "x ! 0 = 0" and "x ! 32 = 0"
  shows "(norm2 (vsub (rhs 33) (matvec (impose_bc_A (stiffness 33)) x)))\<^sup>2 =
           (\<Sum>i<31. (rhs 33 ! Suc i
                      - 1024 * (2 * x ! Suc i - x ! i - x ! Suc (Suc i)))\<^sup>2)"
proof -
  let ?A = "impose_bc_A (stiffness 33)"
  let ?f = "rhs 33"
  let ?r = "vsub ?f (matvec ?A x)"
  have sq: "square ?A 33" by (intro square_impose_bc_A square_stiffness) simp
  then have len: "length ?A = 33" "\<And>i. i < 33 \<Longrightarrow> length (?A ! i) = 33"
    by (simp_all add: square_def)
  have lr: "length ?r = 33" by (simp add: vsub_def matvec_def len length_rhs)
  have r: "?r ! i = ?f ! i - (\<Sum>j<33. ?A ! i ! j * x ! j)" if "i < 33" for i
    using that dot_sum [OF len(2) assms(1), of i]
    by (simp add: vsub_def matvec_def len length_rhs)
  have "(\<Sum>j<33. ?A ! 0 ! j * x ! j) = 0"
    using assms(2) by (intro sum.neutral) (auto simp: assembled_nth)
  then have r0: "?r ! 0 = 0"
    using rhs_boundary [of 33] by (simp add: r)
  have "(\<Sum>j<33. ?A ! 32 ! j * x ! j) = 0"
    using assms(3) by (intro sum.neutral) (auto simp: assembled_nth)
  then have r32: "?r ! 32 = 0"
    using rhs_boundary [of 33] by (simp add: r)
  have ri: "?r ! Suc i = ?f ! Suc i - 1024 * (2 * x ! Suc i - x ! i - x ! Suc (Suc i))"
    if "i < 31" for i
  proof -
    have "(\<Sum>j<33. ?A ! Suc i ! j * x ! j) =
        (2 * x ! Suc i - (if Suc i = 1 then 0 else x ! (Suc i - 1))
           - (if Suc i + 2 = 33 then 0 else x ! (Suc i + 1))) / (mesh_h 33)\<^sup>2"
      using that by (intro assembled_row_sum) simp_all
    also have "\<dots> = 1024 * (2 * x ! Suc i - x ! i - x ! Suc (Suc i))"
      using assms(2,3) by (auto simp: mesh_h_33)
    finally show ?thesis using that by (simp add: r)
  qed
  have nn: "0 \<le> sum_list (map (\<lambda>c. c * c) ?r)"
    by (rule sum_list_nonneg) auto
  have "(norm2 ?r)\<^sup>2 = sum_list (map (\<lambda>c. c * c) ?r)"
    using nn by (simp add: norm2_def)
  also have "\<dots> = (\<Sum>i<33. ?r ! i * ?r ! i)"
    by (simp add: sum_list_map_nth lr)
  also have "\<dots> = ?r ! 0 * ?r ! 0 + (\<Sum>i<32. ?r ! Suc i * ?r ! Suc i)"
    using sum.lessThan_Suc_shift [of "\<lambda>i. ?r ! i * ?r ! i" 32] by simp
  also have "(\<Sum>i<32. ?r ! Suc i * ?r ! Suc i) =
             (\<Sum>i<31. ?r ! Suc i * ?r ! Suc i) + ?r ! 32 * ?r ! 32"
    using sum.lessThan_Suc [of "\<lambda>i. ?r ! Suc i * ?r ! Suc i" 31] by simp
  also have "(\<Sum>i<31. ?r ! Suc i * ?r ! Suc i) =
             (\<Sum>i<31. (?f ! Suc i - 1024 * (2 * x ! Suc i - x ! i - x ! Suc (Suc i)))\<^sup>2)"
    by (intro sum.cong) (simp_all add: ri power2_eq_square)
  finally show ?thesis by (simp add: r0 r32)
qed


lemma sum_shift_le:
  fixes s :: "nat \<Rightarrow> real"
  assumes "s 32 = 0"
  shows "(\<Sum>i<31. (s (Suc (Suc i)))\<^sup>2) \<le> (\<Sum>i<31. (s (Suc i))\<^sup>2)"
proof -
  have "(\<Sum>i<32. (s (Suc i))\<^sup>2) = (s (Suc 0))\<^sup>2 + (\<Sum>i<31. (s (Suc (Suc i)))\<^sup>2)"
    using sum.lessThan_Suc_shift [of "\<lambda>i. (s (Suc i))\<^sup>2" 31] by simp
  moreover have "(\<Sum>i<32. (s (Suc i))\<^sup>2) = (\<Sum>i<31. (s (Suc i))\<^sup>2) + (s 32)\<^sup>2"
    using sum.lessThan_Suc [of "\<lambda>i. (s (Suc i))\<^sup>2" 31] by simp
  ultimately show ?thesis using assms by simp
qed

text \<open>
  In exact arithmetic \<^verbatim>\<open>gauss_seidel\<close> reaches the default tolerance on the system with
  33 points before the default cap.
\<close>

lemma gauss_seidel_tolerance_33:
  "v_tol (gauss_seidel_state (impose_bc_A (stiffness 33)) (rhs 33) eps 9999) \<le> 1 / 10 ^ 10"
proof -
  let ?A = "impose_bc_A (stiffness 33)"
  let ?f = "rhs 33"
  define X where "X k i = v_x (gauss_seidel_state ?A ?f eps (Suc k)) ! i" for k i
  define D where "D k i = X (Suc k) i - X k i" for k i
  have sq: "square ?A 33" by (intro square_impose_bc_A square_stiffness) simp
  then have lenA: "length ?A = 33" by (simp add: square_def)
  have lenf: "length ?f = 33" by (simp add: length_rhs)
  have lenx: "length (v_x (gauss_seidel_state ?A ?f eps k)) = 33" for k
    by (simp add: gauss_seidel_state_length lenf)
  have d: "dirichlet_row ?A ?f 0" "dirichlet_row ?A ?f 32"
    using assemble_dirichlet_rows [of 33] by simp_all
  have X0: "X k 0 = 0" and X32: "X k 32 = 0" for k
    using gauss_seidel_state_dirichlet [OF d(1)] gauss_seidel_state_dirichlet [OF d(2)]
    by (simp_all add: X_def)
  have step: "v_x (gauss_seidel_state ?A ?f eps (Suc k)) =
      gauss_seidel_sweep ?A ?f 33 (v_x_old (gauss_seidel_state ?A ?f eps k))
        (v_x (gauss_seidel_state ?A ?f eps k))" for k
    by (simp add: gauss_seidel_state_x lenA)
  have old: "v_x_old (gauss_seidel_state ?A ?f eps (Suc k)) =
      v_x (gauss_seidel_state ?A ?f eps (Suc k))" for k
    by (simp add: gauss_seidel_state_x_old)
  have recX: "2048 * X (Suc k) (Suc i) = ?f ! Suc i + 1024 * X (Suc k) i + 1024 * X k (Suc (Suc i))"
    if "i < 31" for k i
  proof -
    have "2048 * X (Suc k) (Suc i) = ?f ! Suc i + 1024 * X (Suc k) i
            + 1024 * (if i = 30 then 0 else X k (Suc (Suc i)))"
      unfolding X_def step [of "Suc k"] old
      using that by (intro gauss_seidel_sweep_33) (simp_all add: lenx)
    with X32 [of k] show ?thesis by (auto simp: numeral_eq_Suc)
  qed
  have D0: "D k 0 = 0" and D32: "D k 32 = 0" for k
    by (simp_all add: D_def X0 X32)
  have recD: "2 * D (Suc k) (Suc i) = D (Suc k) i + D k (Suc (Suc i))" if "i < 31" for k i
    using recX [OF that, of "Suc k"] recX [OF that, of k] by (simp add: D_def)
  have contract: "energy 32 (D k) \<le> (128 / 129) ^ k * energy 32 (D 0)" for k
    using D0 D32 recD by (intro sweeps_contract) simp_all
  text \<open>The first two iterates are bounded, hence the first step.\<close>
  have b0: "0 \<le> X 0 i \<and> X 0 i \<le> 2" if "i < 33" for i
  proof -
    have "0 \<le> gauss_seidel_sweep (impose_bc_A (stiffness 33)) (rhs 33) 33
              (v_x_old (gauss_seidel_state ?A ?f eps 0)) (v_x (gauss_seidel_state ?A ?f eps 0)) ! i
        \<and> gauss_seidel_sweep (impose_bc_A (stiffness 33)) (rhs 33) 33
              (v_x_old (gauss_seidel_state ?A ?f eps 0)) (v_x (gauss_seidel_state ?A ?f eps 0)) ! i
            \<le> 1 + 1"
      using that
      by (intro gauss_seidel_sweep_33_bounds)
         (simp_all add: lenx gauss_seidel_state_x_old ones_like_def lenf)
    then show ?thesis by (simp add: X_def step)
  qed
  have b1: "0 \<le> X 1 i \<and> X 1 i \<le> 3" if "i < 33" for i
  proof -
    have "0 \<le> gauss_seidel_sweep (impose_bc_A (stiffness 33)) (rhs 33) 33
              (v_x_old (gauss_seidel_state ?A ?f eps 1)) (v_x (gauss_seidel_state ?A ?f eps 1)) ! i
        \<and> gauss_seidel_sweep (impose_bc_A (stiffness 33)) (rhs 33) 33
              (v_x_old (gauss_seidel_state ?A ?f eps 1)) (v_x (gauss_seidel_state ?A ?f eps 1)) ! i
            \<le> 2 + 1"
      using that b0
      by (intro gauss_seidel_sweep_33_bounds)
         (simp_all add: lenx gauss_seidel_state_x_old X_def)
    then show ?thesis
      using step [of 1] by (simp add: X_def numeral_2_eq_2)
  qed
  have bD: "\<bar>D 0 i\<bar> \<le> 3" if "i < 33" for i
    using b0 [OF that] b1 [OF that] by (simp add: D_def abs_le_iff)
  have "energy 32 (D 0) \<le> (\<Sum>j<(32::nat). 36)"
    unfolding energy_def
  proof (rule sum_mono)
    fix j assume "j \<in> {..<(32::nat)}"
    then have "\<bar>D 0 (Suc j)\<bar> \<le> 3" "\<bar>D 0 j\<bar> \<le> 3" by (simp_all add: bD)
    then have "\<bar>D 0 (Suc j) - D 0 j\<bar> \<le> 6" by simp
    then have "(D 0 (Suc j) - D 0 j)\<^sup>2 \<le> 6\<^sup>2"
      by (simp only: abs_le_square_iff [symmetric] abs_numeral)
    then show "(D 0 (Suc j) - D 0 j)\<^sup>2 \<le> 36" by simp
  qed
  then have E0: "energy 32 (D 0) \<le> 1152" by simp
  text \<open>The residual after sweep \<open>k + 2\<close> is \<open>1024\<close> times the shifted step \<open>D k\<close>.\<close>
  have res: "(v_tol (gauss_seidel_state ?A ?f eps (Suc (Suc k))))\<^sup>2
               \<le> 2 ^ 28 * energy 32 (D k)" for k
  proof -
    let ?x = "v_x (gauss_seidel_state ?A ?f eps (Suc (Suc k)))"
    have "(v_tol (gauss_seidel_state ?A ?f eps (Suc (Suc k))))\<^sup>2 =
          (norm2 (vsub (rhs 33) (matvec (impose_bc_A (stiffness 33)) ?x)))\<^sup>2"
      by (simp add: gauss_seidel_state_tol)
    also have "\<dots> = (\<Sum>i<31. (rhs 33 ! Suc i
                      - 1024 * (2 * ?x ! Suc i - ?x ! i - ?x ! Suc (Suc i)))\<^sup>2)"
      using X0 [of "Suc k"] X32 [of "Suc k"]
      by (intro residual_33) (simp_all add: lenx X_def)
    also have "\<dots> = (\<Sum>i<31. (1024 * D k (Suc (Suc i)))\<^sup>2)"
    proof (rule sum.cong)
      fix i assume "i \<in> {..<(31::nat)}"
      then have "i < 31" by simp
      from recX [OF this, of k]
      show "(rhs 33 ! Suc i - 1024 * (2 * ?x ! Suc i - ?x ! i - ?x ! Suc (Suc i)))\<^sup>2 =
            (1024 * D k (Suc (Suc i)))\<^sup>2"
        by (simp add: D_def X_def algebra_simps)
    qed simp
    also have "\<dots> = 1024\<^sup>2 * (\<Sum>i<31. (D k (Suc (Suc i)))\<^sup>2)"
      by (simp add: power_mult_distrib sum_distrib_left)
    also have "\<dots> \<le> 1024\<^sup>2 * (\<Sum>i<31. (D k (Suc i))\<^sup>2)"
      using D32 by (intro mult_left_mono sum_shift_le) simp_all
    also have "\<dots> \<le> 1024\<^sup>2 * (256 * energy 32 (D k))"
      using D0 D32 by (intro mult_left_mono poincare_32) simp_all
    finally show ?thesis by simp
  qed
  have dec: "(128 / 129 :: real) ^ 9997 \<le> 1 / 10 ^ 33"
  proof -
    have "(10::real) ^ 33 \<le> (129 / 128) ^ 9984" by (rule decay_bound)
    also have "\<dots> \<le> (129 / 128) ^ 9997" by (intro power_increasing) simp_all
    finally have "1 / (129 / 128 :: real) ^ 9997 \<le> 1 / 10 ^ 33"
      by (intro divide_left_mono) simp_all
    moreover have "(128 / 129 :: real) = 1 / (129 / 128)" by simp
    then have "(128 / 129 :: real) ^ 9997 = 1 / (129 / 128) ^ 9997"
      by (simp only: power_one_over)
    ultimately show ?thesis by (simp only:)
  qed
  have "(9999::nat) = Suc (Suc 9997)" by simp
  then have "(v_tol (gauss_seidel_state ?A ?f eps 9999))\<^sup>2 \<le> 2 ^ 28 * energy 32 (D 9997)"
    using res [of 9997] by (simp only:)
  also have "\<dots> \<le> 2 ^ 28 * ((128 / 129) ^ 9997 * energy 32 (D 0))"
    using contract [of 9997] by (intro mult_left_mono) simp_all
  also have "\<dots> \<le> 2 ^ 28 * (1 / 10 ^ 33 * 1152)"
    using dec E0 energy_nonneg [of 32 "D 0"]
    by (intro mult_left_mono mult_mono) simp_all
  also have "\<dots> \<le> (1 / 10 ^ 10)\<^sup>2" by (simp add: power_divide)
  finally have "(v_tol (gauss_seidel_state ?A ?f eps 9999))\<^sup>2 \<le> (1 / 10 ^ 10)\<^sup>2" .
  then show ?thesis
    by (rule power2_le_imp_le) simp
qed


lemma gauss_seidel_reaches_tolerance_33:
  "\<exists>K<10000.
     gauss_seidel_run (impose_bc_A (stiffness 33)) (rhs 33) 10000 (1 / 10 ^ 10) =
       gauss_seidel_state (impose_bc_A (stiffness 33)) (rhs 33) (1 / 10 ^ 10) K
     \<and> v_it (gauss_seidel_run (impose_bc_A (stiffness 33)) (rhs 33) 10000 (1 / 10 ^ 10)) = int K
     \<and> v_tol (gauss_seidel_run (impose_bc_A (stiffness 33)) (rhs 33) 10000 (1 / 10 ^ 10))
         \<le> 1 / 10 ^ 10"
proof -
  let ?A = "impose_bc_A (stiffness 33)"
  let ?f = "rhs 33"
  define eps :: real where "eps = 1 / 10 ^ 10"
  from gauss_seidel_run_state [of ?A ?f 10000 eps] obtain K where K:
    "gauss_seidel_run ?A ?f 10000 eps = gauss_seidel_state ?A ?f eps K"
    "10000 \<le> int K \<or> v_tol (gauss_seidel_state ?A ?f eps K) \<le> eps"
    "\<forall>j<K. eps < v_tol (gauss_seidel_state ?A ?f eps j)"
    by blast
  have t: "v_tol (gauss_seidel_state ?A ?f eps 9999) \<le> eps"
    unfolding eps_def by (rule gauss_seidel_tolerance_33)
  have less: "K < 10000"
  proof (rule ccontr)
    assume "\<not> K < 10000"
    then have "9999 < K" by simp
    with K(3) have "eps < v_tol (gauss_seidel_state ?A ?f eps 9999)" by blast
    with t show False by simp
  qed
  with K(2) have "v_tol (gauss_seidel_state ?A ?f eps K) \<le> eps" by simp
  with less K(1) show ?thesis
    unfolding eps_def [symmetric] by (auto simp: gauss_seidel_state_it)
qed


subsection \<open>The gradient method with \<^verbatim>\<open>x\<close> bound\<close>


lemma dot_commute: "dot u v = dot v u"
proof (induction u arbitrary: v)
  case Nil
  show ?case by simp
next
  case (Cons a u)
  show ?case
  proof (cases v)
    case Nil
    then show ?thesis by simp
  next
    case (Cons c v')
    with Cons.IH [of v'] show ?thesis by (simp add: dot_def mult.commute)
  qed
qed

lemma vscale_one: "vscale v 1 = v"
  by (simp add: vscale_def)

lemma norm2_vsub_self: "norm2 (vsub r r) = 0"
proof -
  have "sum_list (map (\<lambda>c. c * c) (vsub r r)) = 0"
    by (induction r) (simp_all add: vsub_def)
  then show ?thesis by (simp add: norm2_def)
qed

text \<open>
  Had \<^verbatim>\<open>x\<close> been bound to a vector \<open>x0\<close> before \<^verbatim>\<open>r=b-dot(A,x)\<close>, the call with the
  preconditioner \<open>P = A\<close> would stop after one iteration with residual norm zero, as
  Claim C6 expects: for an exact \<^verbatim>\<open>linalg.solve\<close>, a nonzero first residual, a cap of at
  least one iteration and a tolerance that is not negative and does not absorb the \<open>1\<close>
  of \<^verbatim>\<open>tol=eps+1\<close>.
\<close>

lemma gradient_from_bound_x_preconditioned_by_A:
  assumes "1 \<le> nmax" and "0 \<le> eps" and "\<not> float_absorbs_one eps"
    and "matvec A (solve A (vsub b (matvec A x0))) = vsub b (matvec A x0)"
    and "dot (vsub b (matvec A x0)) (solve A (vsub b (matvec A x0))) \<noteq> 0"
  shows "\<exists>s. gradient_from (Some x0) solve A b A nmax eps = Inr s
           \<and> g_it s = 1 \<and> g_tol s = 0
           \<and> g_x s = vadd x0 (solve A (vsub b (matvec A x0)))"
proof -
  define r0 where "r0 = vsub b (matvec A x0)"
  define z where "z = solve A r0"
  define s0 where
    "s0 = \<lparr>g_x = x0, g_z = zeros_like b, g_r = r0, g_tol = initial_tol eps, g_it = 0\<rparr>"
  have Az: "matvec A z = r0" using assms(4) by (simp add: z_def r0_def)
  have nz: "dot r0 z \<noteq> 0" using assms(5) by (simp add: z_def r0_def)
  have alpha: "dot r0 z / dot z r0 = 1"
    using nz by (simp add: dot_commute [of z r0])
  have body: "gradient_body solve A A s0 =
      \<lparr>g_x = vadd x0 z, g_z = z, g_r = vsub r0 r0, g_tol = 0, g_it = 1\<rparr>"
    unfolding gradient_body_def Let_def s0_def
    by (simp add: z_def [symmetric] alpha Az vscale_one norm2_vsub_self)
  have "gradient_while solve A A nmax eps s0 =
        gradient_while solve A A nmax eps (gradient_body solve A A s0)"
    using assms(1,3) by (subst gradient_while.simps) (simp add: s0_def initial_tol_def)
  also have "\<dots> = gradient_body solve A A s0"
    using assms(2) by (subst gradient_while.simps) (simp add: body)
  finally have w: "gradient_while solve A A nmax eps s0 =
      \<lparr>g_x = vadd x0 z, g_z = z, g_r = vsub r0 r0, g_tol = 0, g_it = 1\<rparr>"
    by (simp only: body)
  have "gradient_from (Some x0) solve A b A nmax eps =
      Inr (gradient_while solve A A nmax eps s0)"
    by (simp add: gradient_from_def load_local_def s0_def r0_def)
  then have "gradient_from (Some x0) solve A b A nmax eps =
      Inr \<lparr>g_x = vadd x0 z, g_z = z, g_r = vsub r0 r0, g_tol = 0, g_it = 1\<rparr>"
    by (simp only: w)
  then show ?thesis by (simp add: z_def r0_def)
qed

end
